theory Spec2Isabelle
  imports Main "HOL-Library.Char_ord" "HOL-Library.List_Lexorder"
begin

section \<open>Vertices and their transition tables\<close>

text \<open>
  A vertex of the graph (\<^verbatim>\<open>details::vertex\<close>) holds a transition table
  \<^verbatim>\<open>std::map<char, vertex *>\<close> and the accepting flag. Pointers are modelled as
  addresses (natural numbers) into an explicit store. A \<^verbatim>\<open>std::map\<close> is an ordered
  associative container: it is modelled by its sequence of entries in iteration order, that
  is, an association list kept strictly ascending in the key. The order of \<^verbatim>\<open>char\<close> in C++
  is that of a signed or of an unsigned byte, as the platform has it; the model takes the
  order of \<^typ>\<open>char\<close>, the unsigned one. The tables are only ever compared for equality
  (\<open>equivalent_iff\<close> below), which does not depend on the choice.
\<close>

record vertex =
  edges :: "(char \<times> nat) list"
  is_accepting :: bool

definition new_vertex :: vertex where
  "new_vertex = \<lparr>edges = [], is_accepting = False\<rparr>"

text \<open>\<^verbatim>\<open>edges()[c] = p\<close>: insert the key at its place, or overwrite the entry that is there.\<close>

fun map_assign :: "char \<Rightarrow> nat \<Rightarrow> (char \<times> nat) list \<Rightarrow> (char \<times> nat) list" where
  "map_assign c p [] = [(c, p)]"
| "map_assign c p ((k, v) # kvs) =
     (if c < k then (c, p) # (k, v) # kvs
      else if k < c then (k, v) # map_assign c p kvs
      else (k, p) # kvs)"

text \<open>\<^verbatim>\<open>edges().find(c)\<close>: the entry of key \<open>c\<close>, or \<open>None\<close> for \<^verbatim>\<open>end()\<close>.\<close>

definition map_find :: "char \<Rightarrow> (char \<times> nat) list \<Rightarrow> nat option" where
  "map_find c kvs = map_of kvs c"

definition set_edge :: "char \<Rightarrow> nat \<Rightarrow> vertex \<Rightarrow> vertex" where
  "set_edge c p v = v\<lparr>edges := map_assign c p (edges v)\<rparr>"

definition mark_word_end :: "vertex \<Rightarrow> vertex" where
  "mark_word_end v = v\<lparr>is_accepting := True\<rparr>"

text \<open>
  \<^verbatim>\<open>operator<\<close> of two maps is \<^verbatim>\<open>std::lexicographical_compare\<close> over their entries, and
  \<^verbatim>\<open>operator<\<close> of two entries (\<^verbatim>\<open>std::pair\<close>) compares the keys, then the pointers.
\<close>

fun pair_less :: "char \<times> nat \<Rightarrow> char \<times> nat \<Rightarrow> bool" where
  "pair_less (k1, p1) (k2, p2) = (k1 < k2 \<or> (\<not> k2 < k1 \<and> p1 < p2))"

fun edges_less :: "(char \<times> nat) list \<Rightarrow> (char \<times> nat) list \<Rightarrow> bool" where
  "edges_less [] [] = False"
| "edges_less [] (y # ys) = True"
| "edges_less (x # xs) [] = False"
| "edges_less (x # xs) (y # ys) =
     (if pair_less x y then True
      else if pair_less y x then False
      else edges_less xs ys)"

type_synonym heap = "nat \<Rightarrow> vertex"

text \<open>\<^verbatim>\<open>operator<\<close> of two vertices, given by their addresses in the store.\<close>

definition vertex_less :: "heap \<Rightarrow> nat \<Rightarrow> nat \<Rightarrow> bool" where
  "vertex_less h lhs rhs =
     (if lhs = rhs then False
      else if is_accepting (h lhs) \<noteq> is_accepting (h rhs) then is_accepting (h lhs) = False
      else edges_less (edges (h lhs)) (edges (h rhs)))"

section \<open>The automaton under construction\<close>

text \<open>
  An entry of the unminimized path (\<^verbatim>\<open>details::unminimized_vertex\<close>): the vertex it owns
  and the label of the edge from its parent.
\<close>

record unminimized_vertex =
  vertex_ptr :: nat
  edge_from_parent :: char

text \<open>
  The state of a \<^verbatim>\<open>dagger\<close>. The stack \<^verbatim>\<open>unminimized_path_\<close> is a list whose head is the
  top. The set \<^verbatim>\<open>minimized_vertices_\<close> is the list of the addresses it owns, in the order
  of their insertion; the code only ever searches it with the comparator and never iterates
  over it. \<open>heap\<close> is the store of all vertices and \<open>next_free\<close> the address that the next
  \<^verbatim>\<open>make_unique<vertex>()\<close> returns: an allocation is always a new address. A vertex
  whose \<^verbatim>\<open>unique_ptr\<close> is destroyed stays in the store; no edge leads to it any more
  (\<open>discarded_unreferenced\<close> below), so that the model loses nothing by never using its address
  again.
\<close>

record dagger =
  prev_word :: string
  root_vertex :: nat
  unminimized_path :: "unminimized_vertex list"
  minimized_vertices :: "nat list"
  heap :: heap
  next_free :: nat

text \<open>The default-constructed \<^verbatim>\<open>dagger\<close>: a fresh root vertex, nothing else.\<close>

definition empty_dagger :: dagger where
  "empty_dagger =
     \<lparr>prev_word = [], root_vertex = 0, unminimized_path = [], minimized_vertices = [],
      heap = (\<lambda>_. new_vertex), next_free = 1\<rparr>"

text \<open>
  \<^verbatim>\<open>minimized_vertices_.find(p)\<close> with the comparator \<^verbatim>\<open>dereferencing_less\<close>: an element
  \<open>r\<close> of the set such that neither \<open>*r < *p\<close> nor \<open>*p < *r\<close>. The comparator orders
  the vertices by their contents, which never change once a vertex is in the set, and no two
  elements of the set are equivalent: the search of the tree finds the equivalent element
  if there is one.
\<close>

definition equivalent :: "heap \<Rightarrow> nat \<Rightarrow> nat \<Rightarrow> bool" where
  "equivalent h a b = (\<not> vertex_less h a b \<and> \<not> vertex_less h b a)"

definition registry_find :: "heap \<Rightarrow> nat list \<Rightarrow> nat \<Rightarrow> nat option" where
  "registry_find h reg p = find (\<lambda>r. equivalent h r p) reg"

text \<open>
  One iteration of the loop of \<^verbatim>\<open>minimize_until\<close>. The loop only runs it on a non-empty
  path.
\<close>

definition minimize_step :: "dagger \<Rightarrow> dagger" where
  "minimize_step s =
     (case unminimized_path s of
        [] \<Rightarrow> s
      | popped # rest \<Rightarrow>
          (let s1 = s\<lparr>unminimized_path := rest\<rparr> in
           case registry_find (heap s1) (minimized_vertices s1) (vertex_ptr popped) of
             Some it \<Rightarrow>
               (let parent = (case rest of [] \<Rightarrow> root_vertex s1 | u # _ \<Rightarrow> vertex_ptr u)
                in s1\<lparr>heap := (heap s1)
                       (parent := set_edge (edge_from_parent popped) it (heap s1 parent))\<rparr>)
           | None \<Rightarrow> s1\<lparr>minimized_vertices := minimized_vertices s1 @ [vertex_ptr popped]\<rparr>))"

function minimize_until :: "nat \<Rightarrow> dagger \<Rightarrow> dagger" where
  "minimize_until until s =
     (if length (unminimized_path s) > until then minimize_until until (minimize_step s)
      else s)"
  by pat_completeness auto
termination
proof (relation "measure (\<lambda>(until, s). length (unminimized_path s))")
  show "wf (measure (\<lambda>(until, s). length (unminimized_path s)))"
    by simp
next
  fix until :: nat and s :: dagger
  assume "until < length (unminimized_path s)"
  then show "((until, minimize_step s), (until, s))
               \<in> measure (\<lambda>(until, s). length (unminimized_path s))"
    by (cases "unminimized_path s")
       (simp_all add: minimize_step_def Let_def split: option.split)
qed

declare minimize_until.simps [simp del]

definition finish_minimization :: "dagger \<Rightarrow> dagger" where
  "finish_minimization s = minimize_until 0 s"

text \<open>
  The loop of \<^verbatim>\<open>add_suffix\<close>: it carries \<^verbatim>\<open>parent_vertex\<close> and returns its last value.
\<close>

fun add_suffix_loop :: "nat \<Rightarrow> string \<Rightarrow> dagger \<Rightarrow> nat \<times> dagger" where
  "add_suffix_loop parent [] s = (parent, s)"
| "add_suffix_loop parent (c # cs) s =
     (let nv = next_free s;
          h1 = (heap s)(nv := new_vertex);
          h2 = h1(parent := set_edge c nv (h1 parent));
          s' = s\<lparr>heap := h2, next_free := Suc nv,
                 unminimized_path :=
                   \<lparr>vertex_ptr = nv, edge_from_parent = c\<rparr> # unminimized_path s\<rparr>
      in add_suffix_loop nv cs s')"

definition path_top :: "dagger \<Rightarrow> nat" where
  "path_top s = (case unminimized_path s of [] \<Rightarrow> root_vertex s | u # _ \<Rightarrow> vertex_ptr u)"

definition add_suffix :: "string \<Rightarrow> dagger \<Rightarrow> dagger" where
  "add_suffix suffix s =
     (case add_suffix_loop (path_top s) suffix s of
        (parent, s') \<Rightarrow> s'\<lparr>heap := (heap s')(parent := mark_word_end (heap s' parent))\<rparr>)"

text \<open>\<^verbatim>\<open>std::mismatch\<close>, as the length of the common prefix it finds.\<close>

fun mismatch :: "string \<Rightarrow> string \<Rightarrow> nat" where
  "mismatch (x # xs) (y # ys) = (if x = y then Suc (mismatch xs ys) else 0)"
| "mismatch _ _ = 0"

text \<open>\<^verbatim>\<open>insert\<close>; the name \<open>insert\<close> is taken by the sets of HOL.\<close>

definition insert_word :: "string \<Rightarrow> dagger \<Rightarrow> dagger" where
  "insert_word word s =
     (let common_prefix_len = mismatch (prev_word s) word;
          s1 = minimize_until common_prefix_len s;
          s2 = add_suffix (drop common_prefix_len word) s1
      in s2\<lparr>prev_word := word\<rparr>)"

text \<open>
  \<^verbatim>\<open>contains\<close> is a non-const member function; it returns its answer and the automaton
  as it leaves it.
\<close>

fun contains_loop :: "heap \<Rightarrow> nat \<Rightarrow> string \<Rightarrow> bool" where
  "contains_loop h cur [] = is_accepting (h cur)"
| "contains_loop h cur (c # cs) =
     (case map_find c (edges (h cur)) of
        None \<Rightarrow> False
      | Some nxt \<Rightarrow> contains_loop h nxt cs)"

definition contains :: "string \<Rightarrow> dagger \<Rightarrow> bool \<times> dagger" where
  "contains word s = (contains_loop (heap s) (root_vertex s) word, s)"

definition insert_all :: "string list \<Rightarrow> dagger \<Rightarrow> dagger" where
  "insert_all ws s = foldl (\<lambda>dag w. insert_word w dag) s ws"

definition from_dictionary :: "string list \<Rightarrow> dagger" where
  "from_dictionary ws = finish_minimization (insert_all ws empty_dagger)"

section \<open>The steps of the construction\<close>

text \<open>
  One iteration of the loop of \<^verbatim>\<open>add_suffix\<close>, and the statement after the loop, seen as
  functions of the state: within \<^verbatim>\<open>add_suffix\<close>, \<^verbatim>\<open>parent_vertex\<close> is always the vertex on
  top of the path, or the root when the path is empty.
\<close>

definition push_vertex :: "char \<Rightarrow> dagger \<Rightarrow> dagger" where
  "push_vertex c s =
     (let nv = next_free s;
          h1 = (heap s)(nv := new_vertex);
          h2 = h1(path_top s := set_edge c nv (h1 (path_top s)))
      in s\<lparr>heap := h2, next_free := Suc nv,
            unminimized_path :=
              \<lparr>vertex_ptr = nv, edge_from_parent = c\<rparr> # unminimized_path s\<rparr>)"

definition mark_top :: "dagger \<Rightarrow> dagger" where
  "mark_top s = s\<lparr>heap := (heap s)(path_top s := mark_word_end (heap s (path_top s)))\<rparr>"

text \<open>
  The states that a run of \<^verbatim>\<open>from_dictionary\<close> goes through: the words \<open>ws\<close> have been
  inserted, the loop of \<^verbatim>\<open>minimize_until\<close> has run \<open>k\<close> more iterations, and the loop of
  \<^verbatim>\<open>add_suffix\<close> has then pushed the characters \<open>suffix\<close>.
\<close>

definition state_during :: "string list \<Rightarrow> nat \<Rightarrow> string \<Rightarrow> dagger" where
  "state_during ws k suffix =
     foldl (\<lambda>dag c. push_vertex c dag)
       ((minimize_step ^^ k) (insert_all ws empty_dagger)) suffix"

section \<open>The loops as partial functions\<close>

text \<open>
  The \<^verbatim>\<open>while\<close> loop of \<^verbatim>\<open>minimize_until\<close> once more, with nothing assumed about its
  termination: the result is \<open>None\<close> if the loop runs forever. The \<^verbatim>\<open>for\<close> loops range
  over a string or over the input sequence, which are finite.
\<close>

partial_function (option) minimize_until_opt :: "nat \<Rightarrow> dagger \<Rightarrow> dagger option" where
  "minimize_until_opt until s =
     (if length (unminimized_path s) > until then minimize_until_opt until (minimize_step s)
      else Some s)"

definition insert_word_opt :: "string \<Rightarrow> dagger \<Rightarrow> dagger option" where
  "insert_word_opt word s =
     (let common_prefix_len = mismatch (prev_word s) word in
      case minimize_until_opt common_prefix_len s of
        None \<Rightarrow> None
      | Some s1 \<Rightarrow>
          Some ((add_suffix (drop common_prefix_len word) s1)\<lparr>prev_word := word\<rparr>))"

fun insert_all_opt :: "string list \<Rightarrow> dagger \<Rightarrow> dagger option" where
  "insert_all_opt [] s = Some s"
| "insert_all_opt (w # ws) s =
     (case insert_word_opt w s of None \<Rightarrow> None | Some s' \<Rightarrow> insert_all_opt ws s')"

definition from_dictionary_opt :: "string list \<Rightarrow> dagger option" where
  "from_dictionary_opt ws =
     (case insert_all_opt ws empty_dagger of
        None \<Rightarrow> None
      | Some s \<Rightarrow> minimize_until_opt 0 s)"

section \<open>Notions used to state the properties\<close>

text \<open>
  \<open>walk\<close> is the vertex that the loop of \<^verbatim>\<open>contains\<close> reaches on a string, if it does not
  stop early; \<open>lang\<close> is the set of the strings accepted from a vertex.
\<close>

fun walk :: "heap \<Rightarrow> nat \<Rightarrow> string \<Rightarrow> nat option" where
  "walk h cur [] = Some cur"
| "walk h cur (c # cs) =
     (case map_find c (edges (h cur)) of
        None \<Rightarrow> None
      | Some nxt \<Rightarrow> walk h nxt cs)"

definition lang :: "heap \<Rightarrow> nat \<Rightarrow> string set" where
  "lang h a = {x. contains_loop h a x}"

definition keys_sorted :: "(char \<times> nat) list \<Rightarrow> bool" where
  "keys_sorted kvs = sorted_wrt (<) (map fst kvs)"

definition targets :: "vertex \<Rightarrow> nat set" where
  "targets v = snd ` set (edges v)"

definition path_labels :: "dagger \<Rightarrow> string" where
  "path_labels s = map edge_from_parent (rev (unminimized_path s))"

definition parent_of :: "nat \<Rightarrow> unminimized_vertex list \<Rightarrow> nat" where
  "parent_of r path = (case path of [] \<Rightarrow> r | u # _ \<Rightarrow> vertex_ptr u)"

text \<open>The vertices of the automaton: the root and the vertices of the registry.\<close>

definition vertices :: "dagger \<Rightarrow> nat set" where
  "vertices s = insert (root_vertex s) (set (minimized_vertices s))"

text \<open>
  The minimal deterministic automaton of a language \<open>L\<close> (Myhill and Nerode) has one state
  for each residual \<open>{w. u @ w \<in> L}\<close> of \<open>L\<close>. In an automaton whose transition function is
  partial, as here, where a missing edge rejects, the empty residual is no state, unless it
  is the initial state, \<open>L\<close> itself.
\<close>

definition residual :: "string set \<Rightarrow> string \<Rightarrow> string set" where
  "residual L u = {w. u @ w \<in> L}"

definition minimal_dfa_states :: "string set \<Rightarrow> string set set" where
  "minimal_dfa_states L = insert L {residual L u |u. residual L u \<noteq> {}}"

section \<open>Invariants of the construction\<close>

text \<open>
  The unminimized path hangs together: the parent of every entry (the entry below it, or
  the root) reaches the entry by the entry's label, and every other edge of the parent
  leads into the registry \<open>R\<close>.
\<close>

fun chain :: "heap \<Rightarrow> nat set \<Rightarrow> nat \<Rightarrow> unminimized_vertex list \<Rightarrow> bool" where
  "chain h R r [] = True"
| "chain h R r (u # rest) =
     (map_find (edge_from_parent u) (edges (h (parent_of r rest))) = Some (vertex_ptr u) \<and>
      (\<forall>c t. c \<noteq> edge_from_parent u \<longrightarrow>
             map_find c (edges (h (parent_of r rest))) = Some t \<longrightarrow> t \<in> R) \<and>
      chain h R r rest)"

text \<open>
  The invariant of the store that every input preserves, ascending or not: the root, the
  entries of the path and the registry own distinct allocated vertices; every edge leads
  into the registry, except the edges that form the path; the transition tables are ordered;
  no two vertices of the registry have the same contents.
\<close>

definition owned :: "dagger \<Rightarrow> nat list" where
  "owned s = root_vertex s # map vertex_ptr (unminimized_path s) @ minimized_vertices s"

definition heap_inv :: "dagger \<Rightarrow> bool" where
  "heap_inv s \<longleftrightarrow>
     distinct (owned s) \<and>
     (\<forall>a\<in>set (owned s). a < next_free s) \<and>
     (\<forall>a. next_free s \<le> a \<longrightarrow> heap s a = new_vertex) \<and>
     (\<forall>a. a \<notin> set (root_vertex s # map vertex_ptr (unminimized_path s)) \<longrightarrow>
          targets (heap s a) \<subseteq> set (minimized_vertices s)) \<and>
     chain (heap s) (set (minimized_vertices s)) (root_vertex s) (unminimized_path s) \<and>
     targets (heap s (path_top s)) \<subseteq> set (minimized_vertices s) \<and>
     (\<forall>a. keys_sorted (edges (heap s a))) \<and>
     (\<forall>x\<in>set (minimized_vertices s). \<forall>y\<in>set (minimized_vertices s).
        heap s x = heap s y \<longrightarrow> x = y)"

text \<open>
  The further invariant of a run on an ascending input. Along the path no transition table
  has a label above the label of the edge that continues the path (\<open>ordered\<close>); every
  vertex of the registry accepts some string and is reached from the root (\<open>core_inv\<close>).
  While \<^verbatim>\<open>minimize_until\<close> runs, the path spells a prefix of the previous word, the labels
  of the vertex on top are bounded by the next character of that word, and the vertex on
  top accepts some string (\<open>min_inv\<close>). Between two calls of \<^verbatim>\<open>insert\<close> the path spells the
  whole previous word (\<open>run_inv\<close>).
\<close>

fun ordered :: "heap \<Rightarrow> nat \<Rightarrow> unminimized_vertex list \<Rightarrow> bool" where
  "ordered h r [] = True"
| "ordered h r (u # rest) =
     ((\<forall>k\<in>fst ` set (edges (h (parent_of r rest))). k \<le> edge_from_parent u) \<and>
      ordered h r rest)"

definition core_inv :: "dagger \<Rightarrow> bool" where
  "core_inv s \<longleftrightarrow>
     heap_inv s \<and>
     ordered (heap s) (root_vertex s) (unminimized_path s) \<and>
     (\<forall>x\<in>set (minimized_vertices s). \<exists>w. contains_loop (heap s) x w) \<and>
     (\<forall>x\<in>set (minimized_vertices s). \<exists>u. walk (heap s) (root_vertex s) u = Some x)"

definition min_inv :: "dagger \<Rightarrow> bool" where
  "min_inv s \<longleftrightarrow>
     core_inv s \<and>
     path_labels s = take (length (unminimized_path s)) (prev_word s) \<and>
     length (unminimized_path s) \<le> length (prev_word s) \<and>
     (\<forall>k\<in>fst ` set (edges (heap s (path_top s))).
        length (unminimized_path s) < length (prev_word s) \<and>
        k \<le> prev_word s ! length (unminimized_path s)) \<and>
     (unminimized_path s = [] \<or> (\<exists>w. contains_loop (heap s) (path_top s) w))"

definition run_inv :: "dagger \<Rightarrow> bool" where
  "run_inv s \<longleftrightarrow> min_inv s \<and> length (unminimized_path s) = length (prev_word s)"

section \<open>Transition tables\<close>

lemma map_find_assign:
  "map_find c' (map_assign c p kvs) = (if c' = c then Some p else map_find c' kvs)"
  by (induction kvs) (auto simp: map_find_def)

lemma set_map_assign:
  "set (map_assign c p kvs) \<subseteq> insert (c, p) (set kvs)"
  by (induction kvs) (auto split: if_splits)

lemma map_find_None_iff: "map_find c kvs = None \<longleftrightarrow> c \<notin> fst ` set kvs"
  by (simp add: map_find_def map_of_eq_None_iff)

lemma keys_map_assign:
  "fst ` set (map_assign c p kvs) = insert c (fst ` set kvs)"
proof -
  have "\<And>k. k \<in> fst ` set (map_assign c p kvs) \<longleftrightarrow> k \<in> insert c (fst ` set kvs)"
    using map_find_assign [of _ c p kvs] map_find_None_iff
    by (metis insertCI insertE option.distinct(1))
  then show ?thesis by blast
qed

lemma keys_sorted_assign:
  "keys_sorted kvs \<Longrightarrow> keys_sorted (map_assign c p kvs)"
proof (induction kvs)
  case Nil
  then show ?case by (simp add: keys_sorted_def)
next
  case (Cons kv kvs)
  obtain k v where kv: "kv = (k, v)" by (cases kv)
  from Cons.prems have tl: "keys_sorted kvs" and hd: "\<forall>x\<in>set kvs. k < fst x"
    by (auto simp: keys_sorted_def kv)
  have "\<forall>x\<in>set (map_assign c p kvs). k < c \<longrightarrow> k < fst x"
    using hd set_map_assign [of c p kvs] by auto
  with Cons.IH [OF tl] Cons.prems show ?case
    by (auto simp: keys_sorted_def kv)
qed

lemma map_find_Some_iff:
  "keys_sorted kvs \<Longrightarrow> map_find c kvs = Some t \<longleftrightarrow> (c, t) \<in> set kvs"
proof -
  assume "keys_sorted kvs"
  then have "distinct (map fst kvs)"
    by (simp add: keys_sorted_def strict_sorted_iff)
  then show ?thesis
    by (simp add: map_find_def)
qed

lemma map_find_in_set: "map_find c kvs = Some t \<Longrightarrow> (c, t) \<in> set kvs"
  by (simp add: map_find_def map_of_SomeD)

lemma keys_sorted_unique:
  assumes "keys_sorted xs" and "keys_sorted ys"
    and "\<And>c. map_find c xs = map_find c ys"
  shows "xs = ys"
proof -
  have dx: "distinct (map fst xs)" and dy: "distinct (map fst ys)"
    using assms(1,2) by (simp_all add: keys_sorted_def strict_sorted_iff)
  have sx: "sorted (map fst xs)" and sy: "sorted (map fst ys)"
    using assms(1,2) by (simp_all add: keys_sorted_def strict_sorted_iff)
  have eq: "set xs = set ys"
  proof -
    have "\<And>c t. (c, t) \<in> set xs \<longleftrightarrow> (c, t) \<in> set ys"
      using assms by (metis map_find_Some_iff)
    then show ?thesis by auto
  qed
  have inj: "inj_on fst (set xs \<union> set ys)"
    unfolding eq using dy by (simp add: distinct_map)
  from map_sorted_distinct_set_unique [OF inj sx dx sy dy eq] show ?thesis .
qed

section \<open>The comparator\<close>

lemma pair_less_total: "\<not> pair_less x y \<Longrightarrow> \<not> pair_less y x \<Longrightarrow> x = y"
  by (cases x; cases y) auto

lemma pair_less_irrefl: "\<not> pair_less x x"
  by (cases x) auto

lemma edges_less_irrefl: "\<not> edges_less xs xs"
  by (induction xs) (auto simp: pair_less_irrefl)

lemma edges_less_total: "\<not> edges_less xs ys \<Longrightarrow> \<not> edges_less ys xs \<Longrightarrow> xs = ys"
proof (induction xs ys rule: edges_less.induct)
  case (4 x xs y ys)
  then show ?case
    by (auto split: if_splits dest: pair_less_total)
qed auto

lemma equivalent_iff: "equivalent h a b \<longleftrightarrow> h a = h b"
proof
  assume eq: "equivalent h a b"
  show "h a = h b"
  proof (cases "a = b")
    case False
    with eq have "is_accepting (h a) = is_accepting (h b)"
      by (auto simp: equivalent_def vertex_less_def split: if_splits)
    moreover from eq False have "edges (h a) = edges (h b)"
      by (auto simp: equivalent_def vertex_less_def split: if_splits
               intro: edges_less_total)
    ultimately show ?thesis by simp
  qed simp
next
  assume "h a = h b"
  then show "equivalent h a b"
    by (simp add: equivalent_def vertex_less_def edges_less_irrefl)
qed

text \<open>
  The comparator is a strict weak ordering of the vertices, as \<^verbatim>\<open>std::set\<close> requires, and
  its equivalence is the equality of the contents.
\<close>

lemma pair_less_trans: "pair_less x y \<Longrightarrow> pair_less y z \<Longrightarrow> pair_less x z"
  by (cases x; cases y; cases z) auto

lemma pair_less_asym: "pair_less x y \<Longrightarrow> \<not> pair_less y x"
  by (cases x; cases y) auto

lemma edges_less_trans: "edges_less xs ys \<Longrightarrow> edges_less ys zs \<Longrightarrow> edges_less xs zs"
proof (induction xs ys arbitrary: zs rule: edges_less.induct)
  case 1
  then show ?case by simp
next
  case (2 y ys)
  then show ?case by (cases zs) (simp_all split: if_splits)
next
  case (3 x xs)
  then show ?case by simp
next
  case (4 x xs y ys)
  from "4.prems"(2) obtain z zs' where zs: "zs = z # zs'"
    by (cases zs) simp_all
  show ?case
  proof (cases "pair_less x y")
    case True
    show ?thesis
    proof (cases "pair_less y z")
      case True
      with \<open>pair_less x y\<close> have "pair_less x z" by (rule pair_less_trans)
      then show ?thesis by (simp add: zs)
    next
      case False
      with "4.prems"(2) have "\<not> pair_less z y"
        by (simp add: zs split: if_splits)
      with False have "y = z" by (rule pair_less_total)
      with True show ?thesis by (simp add: zs)
    qed
  next
    case False
    with "4.prems"(1) have nyx: "\<not> pair_less y x" and rec: "edges_less xs ys"
      by (simp_all split: if_splits)
    from False nyx have xy: "x = y" by (rule pair_less_total)
    show ?thesis
    proof (cases "pair_less y z")
      case True
      then show ?thesis by (simp add: zs xy)
    next
      case False
      with "4.prems"(2) have nzy: "\<not> pair_less z y" and rec': "edges_less ys zs'"
        by (simp_all add: zs split: if_splits)
      from "4.IH" [OF \<open>\<not> pair_less x y\<close> nyx rec rec'] False nzy show ?thesis
        by (simp add: zs xy)
    qed
  qed
qed

lemma vertex_less_irrefl: "\<not> vertex_less h a a"
  by (simp add: vertex_less_def)

lemma vertex_less_content:
  "vertex_less h a b \<Longrightarrow>
   (\<not> is_accepting (h a) \<and> is_accepting (h b)) \<or>
   (is_accepting (h a) = is_accepting (h b) \<and> edges_less (edges (h a)) (edges (h b)))"
  by (auto simp: vertex_less_def split: if_splits)

lemma vertex_less_trans:
  assumes "vertex_less h a b" and "vertex_less h b c"
  shows "vertex_less h a c"
proof -
  from vertex_less_content [OF assms(1)] vertex_less_content [OF assms(2)]
  have c: "(\<not> is_accepting (h a) \<and> is_accepting (h c)) \<or>
     (is_accepting (h a) = is_accepting (h c) \<and> edges_less (edges (h a)) (edges (h c)))"
    by (auto intro: edges_less_trans)
  then have "h a \<noteq> h c"
    by (auto simp: edges_less_irrefl)
  then have "a \<noteq> c" by auto
  with c show ?thesis
    by (auto simp: vertex_less_def)
qed

lemma equivalent_trans: "equivalent h a b \<Longrightarrow> equivalent h b c \<Longrightarrow> equivalent h a c"
  by (simp add: equivalent_iff)

lemma registry_find_Some:
  "registry_find h reg p = Some r \<Longrightarrow> r \<in> set reg \<and> h r = h p"
  by (auto simp: registry_find_def find_Some_iff equivalent_iff)

lemma registry_find_None:
  "registry_find h reg p = None \<longleftrightarrow> (\<forall>r\<in>set reg. h r \<noteq> h p)"
  by (auto simp: registry_find_def find_None_iff equivalent_iff)

section \<open>Elementary facts about the operations\<close>

lemma minimize_step_found:
  assumes "unminimized_path s = u # rest"
    and "registry_find (heap s) (minimized_vertices s) (vertex_ptr u) = Some c"
  shows "minimize_step s =
           s\<lparr>unminimized_path := rest,
             heap := (heap s)(parent_of (root_vertex s) rest :=
                       set_edge (edge_from_parent u) c (heap s (parent_of (root_vertex s) rest)))\<rparr>"
  using assms by (cases rest) (simp_all add: minimize_step_def parent_of_def Let_def)

lemma minimize_step_new:
  assumes "unminimized_path s = u # rest"
    and "registry_find (heap s) (minimized_vertices s) (vertex_ptr u) = None"
  shows "minimize_step s =
           s\<lparr>unminimized_path := rest,
             minimized_vertices := minimized_vertices s @ [vertex_ptr u]\<rparr>"
  using assms by (simp add: minimize_step_def Let_def)

lemma minimize_step_path:
  "unminimized_path (minimize_step s) = tl (unminimized_path s)"
  by (cases "unminimized_path s")
     (simp_all add: minimize_step_def Let_def split: option.split)

lemma minimize_step_root [simp]: "root_vertex (minimize_step s) = root_vertex s"
  by (cases "unminimized_path s")
     (simp_all add: minimize_step_def Let_def split: option.split)

lemma minimize_step_prev [simp]: "prev_word (minimize_step s) = prev_word s"
  by (cases "unminimized_path s")
     (simp_all add: minimize_step_def Let_def split: option.split)

lemma minimize_step_next_free [simp]: "next_free (minimize_step s) = next_free s"
  by (cases "unminimized_path s")
     (simp_all add: minimize_step_def Let_def split: option.split)

lemma minimize_until_funpow:
  "minimize_until d s = (minimize_step ^^ (length (unminimized_path s) - d)) s"
proof (induction d s rule: minimize_until.induct)
  case (1 d s)
  show ?case
  proof (cases "d < length (unminimized_path s)")
    case True
    then have "length (unminimized_path s) - d
                 = Suc (length (unminimized_path (minimize_step s)) - d)"
      by (simp add: minimize_step_path)
    with "1" True show ?thesis
      by (subst minimize_until.simps) (simp add: funpow_swap1)
  next
    case False
    then show ?thesis
      by (subst minimize_until.simps) simp
  qed
qed

lemma funpow_step_path:
  "unminimized_path ((minimize_step ^^ k) s) = drop k (unminimized_path s)"
  by (induction k) (simp_all add: minimize_step_path drop_Suc tl_drop)

lemma minimize_until_path:
  "unminimized_path (minimize_until d s)
     = drop (length (unminimized_path s) - d) (unminimized_path s)"
  by (simp add: minimize_until_funpow funpow_step_path)

lemma minimize_until_opt_eq: "minimize_until_opt d s = Some (minimize_until d s)"
proof (induction d s rule: minimize_until.induct)
  case (1 d s)
  then show ?case
    by (subst minimize_until_opt.simps, subst minimize_until.simps) simp
qed

lemma insert_word_opt_eq: "insert_word_opt w s = Some (insert_word w s)"
  by (simp add: insert_word_opt_def insert_word_def minimize_until_opt_eq Let_def)

lemma insert_all_opt_eq: "insert_all_opt ws s = Some (insert_all ws s)"
  by (induction ws arbitrary: s) (simp_all add: insert_all_def insert_word_opt_eq)

lemma contains_loop_new: "\<not> contains_loop (\<lambda>_. new_vertex) v w"
  by (cases w) (simp_all add: new_vertex_def map_find_def)

lemma from_dictionary_Nil: "from_dictionary [] = empty_dagger"
  by (simp add: from_dictionary_def insert_all_def finish_minimization_def
                minimize_until.simps empty_dagger_def)

section \<open>The path and the store\<close>

lemma path_top_parent_of: "path_top s = parent_of (root_vertex s) (unminimized_path s)"
  by (simp add: path_top_def parent_of_def)

lemma parent_of_in: "parent_of r path \<in> set (r # map vertex_ptr path)"
  by (cases path) (simp_all add: parent_of_def)

lemma chain_cong:
  "\<forall>a\<in>set (r # map vertex_ptr (tl path)). edges (h' a) = edges (h a) \<Longrightarrow>
   chain h' R r path = chain h R r path"
proof (induction path)
  case Nil
  show ?case by simp
next
  case (Cons u rest)
  have p: "parent_of r rest \<in> set (r # map vertex_ptr rest)"
    by (rule parent_of_in)
  have "\<forall>a\<in>set (r # map vertex_ptr (tl rest)). edges (h' a) = edges (h a)"
    using Cons.prems by (cases rest) auto
  from Cons.IH [OF this] Cons.prems p show ?case
    by auto
qed

lemma chain_mono: "R \<subseteq> R' \<Longrightarrow> chain h R r path \<Longrightarrow> chain h R' r path"
  by (induction path) auto

lemma parent_of_notin_tl:
  "distinct (r # map vertex_ptr path) \<Longrightarrow> path \<noteq> [] \<Longrightarrow>
   parent_of r path \<notin> set (r # map vertex_ptr (tl path))"
  by (cases path) (auto simp: parent_of_def)

lemma in_assign_iff:
  assumes "keys_sorted kvs"
  shows "(k, t) \<in> set (map_assign l c kvs)
           \<longleftrightarrow> (k = l \<and> t = c) \<or> (k \<noteq> l \<and> (k, t) \<in> set kvs)"
proof -
  have "keys_sorted (map_assign l c kvs)"
    using assms by (rule keys_sorted_assign)
  then have "(k, t) \<in> set (map_assign l c kvs)
               \<longleftrightarrow> map_find k (map_assign l c kvs) = Some t"
    by (simp add: map_find_Some_iff)
  also have "\<dots> \<longleftrightarrow> (k = l \<and> t = c) \<or> (k \<noteq> l \<and> map_find k kvs = Some t)"
    by (auto simp: map_find_assign)
  finally show ?thesis
    using assms by (simp add: map_find_Some_iff)
qed

lemma targets_iff:
  "keys_sorted (edges v) \<Longrightarrow> t \<in> targets v \<longleftrightarrow> (\<exists>k. map_find k (edges v) = Some t)"
  by (force simp: targets_def map_find_Some_iff)

lemma edges_set_edge [simp]: "edges (set_edge c p v) = map_assign c p (edges v)"
  by (simp add: set_edge_def)

lemma accepting_set_edge [simp]: "is_accepting (set_edge c p v) = is_accepting v"
  by (simp add: set_edge_def)

lemma edges_mark [simp]: "edges (mark_word_end v) = edges v"
  by (simp add: mark_word_end_def)

lemma accepting_mark [simp]: "is_accepting (mark_word_end v)"
  by (simp add: mark_word_end_def)

lemma edges_new [simp]: "edges new_vertex = []"
  by (simp add: new_vertex_def)

lemma accepting_new [simp]: "\<not> is_accepting new_vertex"
  by (simp add: new_vertex_def)

lemma targets_new [simp]: "targets new_vertex = {}"
  by (simp add: targets_def)

lemma heap_invD:
  assumes "heap_inv s"
  shows "distinct (owned s)"
    and "\<And>a. a \<in> set (owned s) \<Longrightarrow> a < next_free s"
    and "\<And>a. next_free s \<le> a \<Longrightarrow> heap s a = new_vertex"
    and "\<And>a. a \<notin> set (root_vertex s # map vertex_ptr (unminimized_path s)) \<Longrightarrow>
           targets (heap s a) \<subseteq> set (minimized_vertices s)"
    and "chain (heap s) (set (minimized_vertices s)) (root_vertex s) (unminimized_path s)"
    and "targets (heap s (path_top s)) \<subseteq> set (minimized_vertices s)"
    and "\<And>a. keys_sorted (edges (heap s a))"
    and "\<And>x y. x \<in> set (minimized_vertices s) \<Longrightarrow> y \<in> set (minimized_vertices s) \<Longrightarrow>
           heap s x = heap s y \<Longrightarrow> x = y"
  using assms unfolding heap_inv_def by blast+

lemma heap_inv_empty: "heap_inv empty_dagger"
  by (simp add: heap_inv_def empty_dagger_def owned_def path_top_def keys_sorted_def)

section \<open>Every operation preserves the invariant of the store\<close>

lemma heap_inv_step_found:
  assumes inv: "heap_inv s"
    and path: "unminimized_path s = u # rest"
    and found: "registry_find (heap s) (minimized_vertices s) (vertex_ptr u) = Some c"
  shows "heap_inv (minimize_step s)"
proof -
  define r where "r = root_vertex s"
  define p where "p = parent_of r rest"
  define R where "R = set (minimized_vertices s)"
  define h where "h = heap s"
  define h' where "h' = h(p := set_edge (edge_from_parent u) c (h p))"
  have step: "minimize_step s = s\<lparr>unminimized_path := rest, heap := h'\<rparr>"
    using minimize_step_found [OF path found] by (simp add: h'_def h_def p_def r_def)
  note D = heap_invD [OF inv]
  have cR: "c \<in> R" and hc: "h c = h (vertex_ptr u)"
    using registry_find_Some [OF found] by (simp_all add: R_def h_def)
  have dist: "distinct (r # vertex_ptr u # map vertex_ptr rest @ minimized_vertices s)"
    using D(1) by (simp add: owned_def path r_def)
  have p_in: "p \<in> set (r # map vertex_ptr rest)"
    unfolding p_def by (rule parent_of_in)
  have p_notR: "p \<notin> R" and p_ne_u: "p \<noteq> vertex_ptr u"
    using dist p_in by (auto simp: R_def)
  have top: "path_top s = vertex_ptr u"
    by (simp add: path_top_def path)
  have ch: "chain h R r (u # rest)"
    using D(5) by (simp add: path h_def R_def r_def)
  have sorted: "\<And>a. keys_sorted (edges (h a))"
    using D(7) by (simp add: h_def)
  have edges': "\<And>a. a \<noteq> p \<Longrightarrow> h' a = h a"
    by (simp add: h'_def)
  have tp: "targets (h' p) \<subseteq> R"
  proof
    fix t assume "t \<in> targets (h' p)"
    then obtain k where "(k, t) \<in> set (map_assign (edge_from_parent u) c (edges (h p)))"
      by (auto simp: targets_def h'_def)
    then have "(k = edge_from_parent u \<and> t = c) \<or>
               (k \<noteq> edge_from_parent u \<and> map_find k (edges (h p)) = Some t)"
      using sorted [of p] by (simp add: in_assign_iff map_find_Some_iff)
    then show "t \<in> R"
      using cR ch by (auto simp: p_def)
  qed
  have "distinct (owned (minimize_step s))"
    using dist by (simp add: step owned_def r_def)
  moreover have "\<forall>a\<in>set (owned (minimize_step s)). a < next_free (minimize_step s)"
    using D(2) by (auto simp: step owned_def path)
  moreover have "\<forall>a. next_free (minimize_step s) \<le> a \<longrightarrow> heap (minimize_step s) a = new_vertex"
  proof (intro allI impI)
    fix a assume a: "next_free (minimize_step s) \<le> a"
    have "p < next_free s"
      using D(2) [of p] p_in by (auto simp: owned_def path r_def)
    with a have "a \<noteq> p" by (simp add: step)
    with a D(3) [of a] show "heap (minimize_step s) a = new_vertex"
      by (simp add: step edges' h_def)
  qed
  moreover have "\<forall>a. a \<notin> set (root_vertex (minimize_step s)
                      # map vertex_ptr (unminimized_path (minimize_step s))) \<longrightarrow>
          targets (heap (minimize_step s) a) \<subseteq> set (minimized_vertices (minimize_step s))"
  proof (intro allI impI)
    fix a
    assume "a \<notin> set (root_vertex (minimize_step s)
                      # map vertex_ptr (unminimized_path (minimize_step s)))"
    then have a: "a \<notin> set (r # map vertex_ptr rest)"
      by (simp add: step r_def)
    with p_in have "a \<noteq> p" by auto
    then have eq: "heap (minimize_step s) a = h a"
      by (simp add: step edges')
    show "targets (heap (minimize_step s) a) \<subseteq> set (minimized_vertices (minimize_step s))"
    proof (cases "a = vertex_ptr u")
      case True
      then show ?thesis
        using D(6) unfolding eq by (simp add: top h_def step)
    next
      case False
      with a D(4) [of a] show ?thesis
        unfolding eq by (simp add: h_def step path r_def)
    qed
  qed
  moreover have "chain (heap (minimize_step s)) (set (minimized_vertices (minimize_step s)))
                   (root_vertex (minimize_step s)) (unminimized_path (minimize_step s))"
  proof (cases rest)
    case Nil
    then show ?thesis by (simp add: step)
  next
    case (Cons u' rest')
    have "p \<notin> set (r # map vertex_ptr (tl rest))"
      unfolding p_def using dist Cons by (intro parent_of_notin_tl) auto
    then have "\<forall>a\<in>set (r # map vertex_ptr (tl rest)). edges (h' a) = edges (h a)"
      using edges' by metis
    then have "chain h' R r rest = chain h R r rest"
      by (rule chain_cong)
    with ch show ?thesis
      by (simp add: step R_def r_def)
  qed
  moreover have "targets (heap (minimize_step s) (path_top (minimize_step s)))
                   \<subseteq> set (minimized_vertices (minimize_step s))"
    using tp by (simp add: step path_top_parent_of p_def r_def R_def)
  moreover have "\<forall>a. keys_sorted (edges (heap (minimize_step s) a))"
    using sorted by (simp add: step h'_def keys_sorted_assign)
  moreover have "\<forall>x\<in>set (minimized_vertices (minimize_step s)).
                   \<forall>y\<in>set (minimized_vertices (minimize_step s)).
                     heap (minimize_step s) x = heap (minimize_step s) y \<longrightarrow> x = y"
  proof (intro ballI impI)
    fix x y
    assume x: "x \<in> set (minimized_vertices (minimize_step s))"
      and y: "y \<in> set (minimized_vertices (minimize_step s))"
      and eq: "heap (minimize_step s) x = heap (minimize_step s) y"
    from x y p_notR have "x \<noteq> p" "y \<noteq> p"
      by (auto simp: step R_def)
    with eq have "heap s x = heap s y"
      by (simp add: step edges' h_def)
    with x y D(8) show "x = y"
      by (simp add: step)
  qed
  ultimately show ?thesis
    unfolding heap_inv_def by blast
qed

lemma heap_inv_step_new:
  assumes inv: "heap_inv s"
    and path: "unminimized_path s = u # rest"
    and nofind: "registry_find (heap s) (minimized_vertices s) (vertex_ptr u) = None"
  shows "heap_inv (minimize_step s)"
proof -
  define r where "r = root_vertex s"
  define p where "p = parent_of r rest"
  define R where "R = set (minimized_vertices s)"
  define h where "h = heap s"
  define s' where "s' = minimize_step s"
  have step: "s' = s\<lparr>unminimized_path := rest,
                      minimized_vertices := minimized_vertices s @ [vertex_ptr u]\<rparr>"
    unfolding s'_def using minimize_step_new [OF path nofind] .
  note D = heap_invD [OF inv]
  have dist: "distinct (r # vertex_ptr u # map vertex_ptr rest @ minimized_vertices s)"
    using D(1) by (simp add: owned_def path r_def)
  have top: "path_top s = vertex_ptr u"
    by (simp add: path_top_def path)
  have ch: "chain h R r (u # rest)"
    using D(5) by (simp add: path h_def R_def r_def)
  have sorted: "\<And>a. keys_sorted (edges (h a))"
    using D(7) by (simp add: h_def)
  have R': "set (minimized_vertices s') = insert (vertex_ptr u) R"
    by (simp add: step R_def)
  have "distinct (owned s')"
    using dist by (auto simp: step owned_def r_def)
  moreover have "\<forall>a\<in>set (owned s'). a < next_free s'"
    using D(2) by (auto simp: step owned_def path)
  moreover have "\<forall>a. next_free s' \<le> a \<longrightarrow> heap s' a = new_vertex"
    using D(3) by (simp add: step)
  moreover have "\<forall>a. a \<notin> set (root_vertex s' # map vertex_ptr (unminimized_path s')) \<longrightarrow>
          targets (heap s' a) \<subseteq> set (minimized_vertices s')"
  proof (intro allI impI)
    fix a
    assume "a \<notin> set (root_vertex s' # map vertex_ptr (unminimized_path s'))"
    then have a: "a \<notin> set (r # map vertex_ptr rest)"
      by (simp add: step r_def)
    show "targets (heap s' a) \<subseteq> set (minimized_vertices s')"
    proof (cases "a = vertex_ptr u")
      case True
      then show ?thesis
        using D(6) unfolding R' by (auto simp: top h_def step R_def)
    next
      case False
      with a D(4) [of a] show ?thesis
        unfolding R' by (auto simp: h_def step path r_def R_def)
    qed
  qed
  moreover have "chain (heap s') (set (minimized_vertices s')) (root_vertex s')
                   (unminimized_path s')"
  proof -
    have "chain h R r rest" using ch by simp
    then have "chain h (insert (vertex_ptr u) R) r rest"
      by (rule chain_mono [rotated]) auto
    then show ?thesis
      unfolding R' by (simp add: step h_def r_def)
  qed
  moreover have "targets (heap s' (path_top s')) \<subseteq> set (minimized_vertices s')"
  proof
    fix t assume "t \<in> targets (heap s' (path_top s'))"
    then have "t \<in> targets (h p)"
      by (simp add: step path_top_parent_of p_def r_def h_def)
    then obtain k where k: "map_find k (edges (h p)) = Some t"
      using sorted [of p] by (auto simp: targets_iff)
    show "t \<in> set (minimized_vertices s')"
      unfolding R' using ch k by (cases "k = edge_from_parent u") (auto simp: p_def)
  qed
  moreover have "\<forall>a. keys_sorted (edges (heap s' a))"
    using sorted by (simp add: step h_def)
  moreover have "\<forall>x\<in>set (minimized_vertices s'). \<forall>y\<in>set (minimized_vertices s').
                     heap s' x = heap s' y \<longrightarrow> x = y"
  proof -
    have ne: "\<forall>x\<in>R. h x \<noteq> h (vertex_ptr u)"
      using nofind by (simp add: registry_find_None R_def h_def)
    have hs: "heap s' = h" by (simp add: step h_def)
    show ?thesis
      unfolding R' hs using ne D(8) by (auto simp: R_def h_def)
  qed
  ultimately show ?thesis
    unfolding heap_inv_def s'_def by blast
qed

lemma heap_inv_step: "heap_inv s \<Longrightarrow> heap_inv (minimize_step s)"
proof (cases "unminimized_path s")
  case Nil
  assume "heap_inv s"
  with Nil show ?thesis by (simp add: minimize_step_def)
next
  case (Cons u rest)
  assume "heap_inv s"
  with Cons show ?thesis
    by (cases "registry_find (heap s) (minimized_vertices s) (vertex_ptr u)")
       (auto intro: heap_inv_step_new heap_inv_step_found)
qed

lemma path_top_push [simp]: "path_top (push_vertex c s) = next_free s"
  by (simp add: push_vertex_def path_top_def Let_def)

lemma push_vertex_fields [simp]:
  "root_vertex (push_vertex c s) = root_vertex s"
  "prev_word (push_vertex c s) = prev_word s"
  "minimized_vertices (push_vertex c s) = minimized_vertices s"
  "next_free (push_vertex c s) = Suc (next_free s)"
  "unminimized_path (push_vertex c s)
     = \<lparr>vertex_ptr = next_free s, edge_from_parent = c\<rparr> # unminimized_path s"
  by (simp_all add: push_vertex_def Let_def)

lemma mark_top_fields [simp]:
  "root_vertex (mark_top s) = root_vertex s"
  "prev_word (mark_top s) = prev_word s"
  "minimized_vertices (mark_top s) = minimized_vertices s"
  "next_free (mark_top s) = next_free s"
  "unminimized_path (mark_top s) = unminimized_path s"
  "path_top (mark_top s) = path_top s"
  by (simp_all add: mark_top_def path_top_def split: list.split)

lemma add_suffix_loop_push:
  "add_suffix_loop (path_top s) suffix s
     = (path_top (foldl (\<lambda>dag c. push_vertex c dag) s suffix),
        foldl (\<lambda>dag c. push_vertex c dag) s suffix)"
proof (induction suffix arbitrary: s)
  case Nil
  show ?case by simp
next
  case (Cons c cs)
  have "add_suffix_loop (path_top s) (c # cs) s
          = add_suffix_loop (next_free s) cs (push_vertex c s)"
    by (simp add: push_vertex_def Let_def)
  then show ?case
    using Cons.IH [of "push_vertex c s"] by simp
qed

lemma add_suffix_push:
  "add_suffix suffix s = mark_top (foldl (\<lambda>dag c. push_vertex c dag) s suffix)"
  by (simp add: add_suffix_def add_suffix_loop_push mark_top_def)

lemma path_top_owned: "path_top s \<in> set (owned s)"
  using parent_of_in [of "root_vertex s" "unminimized_path s"]
  by (auto simp: path_top_parent_of owned_def)

lemma heap_inv_push:
  assumes inv: "heap_inv s"
  shows "heap_inv (push_vertex c s)"
proof -
  define r where "r = root_vertex s"
  define P where "P = unminimized_path s"
  define p where "p = path_top s"
  define R where "R = set (minimized_vertices s)"
  define h where "h = heap s"
  define nv where "nv = next_free s"
  define h' where "h' = (h(nv := new_vertex))(p := set_edge c nv (h p))"
  define s' where "s' = push_vertex c s"
  note D = heap_invD [OF inv]
  have p_lt: "p < nv"
    using D(2) [OF path_top_owned] by (simp add: p_def nv_def)
  have F: "heap s' = h'" "root_vertex s' = r" "set (minimized_vertices s') = R"
    "minimized_vertices s' = minimized_vertices s"
    "unminimized_path s' = \<lparr>vertex_ptr = nv, edge_from_parent = c\<rparr> # P"
    "next_free s' = Suc nv" "path_top s' = nv"
    using p_lt
    by (simp_all add: s'_def push_vertex_def Let_def h'_def h_def nv_def p_def r_def R_def
                      P_def path_top_def)
  have p_in: "p \<in> set (r # map vertex_ptr P)"
    unfolding p_def path_top_parent_of r_def P_def by (rule parent_of_in)
  have fresh: "nv \<notin> set (owned s)"
    using D(2) [of nv] by (auto simp: nv_def)
  have other: "\<And>a. a \<noteq> p \<Longrightarrow> a \<noteq> nv \<Longrightarrow> h' a = h a"
    by (simp add: h'_def)
  have h'nv: "h' nv = new_vertex"
    using p_lt by (simp add: h'_def)
  have h'p: "h' p = set_edge c nv (h p)"
    by (simp add: h'_def)
  have sorted: "\<And>a. keys_sorted (edges (h a))"
    using D(7) by (simp add: h_def)
  have dist: "distinct (r # map vertex_ptr P @ minimized_vertices s)"
    using D(1) by (simp add: owned_def r_def P_def)
  have own': "owned s' = r # nv # map vertex_ptr P @ minimized_vertices s"
    by (simp add: owned_def F)
  have "distinct (owned s')"
    unfolding own' using dist fresh by (auto simp: owned_def r_def P_def)
  moreover have "\<forall>a\<in>set (owned s'). a < next_free s'"
    unfolding own' F using D(2) by (auto simp: owned_def r_def P_def nv_def less_Suc_eq)
  moreover have "\<forall>a. next_free s' \<le> a \<longrightarrow> heap s' a = new_vertex"
  proof (intro allI impI)
    fix a assume "next_free s' \<le> a"
    then have a: "nv < a" by (simp add: F)
    with p_lt have "h' a = h a" by (intro other) auto
    with a D(3) [of a] show "heap s' a = new_vertex"
      by (simp add: F h_def nv_def)
  qed
  moreover have "\<forall>a. a \<notin> set (root_vertex s' # map vertex_ptr (unminimized_path s')) \<longrightarrow>
          targets (heap s' a) \<subseteq> set (minimized_vertices s')"
  proof (intro allI impI)
    fix a
    assume "a \<notin> set (root_vertex s' # map vertex_ptr (unminimized_path s'))"
    then have a: "a \<notin> set (r # map vertex_ptr P)" "a \<noteq> nv"
      by (auto simp: F)
    with p_in have "a \<noteq> p" by auto
    with a have "h' a = h a" by (intro other)
    then show "targets (heap s' a) \<subseteq> set (minimized_vertices s')"
      using a D(4) [of a] unfolding F by (simp add: h_def r_def P_def R_def)
  qed
  moreover have "chain (heap s') (set (minimized_vertices s')) (root_vertex s')
                   (unminimized_path s')"
  proof -
    have 1: "map_find c (edges (h' p)) = Some nv"
      by (simp add: h'p map_find_assign)
    have 2: "\<forall>k t. k \<noteq> c \<longrightarrow> map_find k (edges (h' p)) = Some t \<longrightarrow> t \<in> R"
    proof (intro allI impI)
      fix k t assume "k \<noteq> c" "map_find k (edges (h' p)) = Some t"
      then have "map_find k (edges (h p)) = Some t"
        by (simp add: h'p map_find_assign)
      then have "t \<in> targets (h p)"
        using sorted [of p] by (auto simp: targets_iff)
      then show "t \<in> R"
        using D(6) by (auto simp: p_def h_def R_def)
    qed
    have 3: "chain h' R r P"
    proof (cases P)
      case Nil
      then show ?thesis by simp
    next
      case (Cons u' P')
      have "p \<notin> set (r # map vertex_ptr (tl P))"
        unfolding p_def path_top_parent_of r_def [symmetric] P_def [symmetric]
        using dist Cons by (intro parent_of_notin_tl) auto
      moreover have "nv \<notin> set (r # map vertex_ptr (tl P))"
        using fresh Cons by (auto simp: owned_def r_def P_def)
      ultimately have "\<forall>a\<in>set (r # map vertex_ptr (tl P)). edges (h' a) = edges (h a)"
        using other by metis
      then have "chain h' R r P = chain h R r P"
        by (rule chain_cong)
      with D(5) show ?thesis
        by (simp add: h_def R_def r_def P_def)
    qed
    have "parent_of r P = p"
      by (simp add: p_def path_top_parent_of r_def P_def)
    with 1 2 3 show ?thesis
      unfolding F by (simp add: R_def)
  qed
  moreover have "targets (heap s' (path_top s')) \<subseteq> set (minimized_vertices s')"
    unfolding F by (simp add: h'nv)
  moreover have "\<forall>a. keys_sorted (edges (heap s' a))"
  proof
    fix a
    have "keys_sorted (edges (h' a))"
      using sorted [of a] sorted [of p]
      by (cases "a = p"; cases "a = nv")
         (simp_all add: h'p h'nv other keys_sorted_assign, simp add: keys_sorted_def)
    then show "keys_sorted (edges (heap s' a))"
      by (simp add: F)
  qed
  moreover have "\<forall>x\<in>set (minimized_vertices s'). \<forall>y\<in>set (minimized_vertices s').
                     heap s' x = heap s' y \<longrightarrow> x = y"
  proof (intro ballI impI)
    fix x y
    assume x: "x \<in> set (minimized_vertices s')" and y: "y \<in> set (minimized_vertices s')"
      and eq: "heap s' x = heap s' y"
    have "x \<noteq> p" "y \<noteq> p" "x \<noteq> nv" "y \<noteq> nv"
      using x y p_in dist fresh unfolding F by (auto simp: owned_def)
    then have "h' x = h x" "h' y = h y"
      by (simp_all add: other)
    with eq x y D(8) show "x = y"
      unfolding F by (simp add: h_def)
  qed
  ultimately show ?thesis
    unfolding heap_inv_def s'_def by blast
qed

lemma chain_mark:
  "chain (h(p := mark_word_end (h p))) R r path = chain h R r path"
  by (rule chain_cong) simp

lemma heap_inv_mark:
  assumes inv: "heap_inv s"
  shows "heap_inv (mark_top s)"
proof -
  define p where "p = path_top s"
  define h' where "h' = (heap s)(p := mark_word_end (heap s p))"
  note D = heap_invD [OF inv]
  have heap': "heap (mark_top s) = h'"
    by (simp add: mark_top_def h'_def p_def)
  have ed: "\<And>a. edges (h' a) = edges (heap s a)"
    by (simp add: h'_def)
  have tg: "\<And>a. targets (h' a) = targets (heap s a)"
    by (simp add: targets_def ed)
  have p_own: "p \<in> set (owned s)"
    unfolding p_def by (rule path_top_owned)
  have p_notR: "p \<notin> set (minimized_vertices s)"
    using D(1) parent_of_in [of "root_vertex s" "unminimized_path s"]
    by (auto simp: p_def path_top_parent_of owned_def)
  have "distinct (owned (mark_top s))"
    using D(1) by (simp add: owned_def)
  moreover have "\<forall>a\<in>set (owned (mark_top s)). a < next_free (mark_top s)"
    using D(2) by (simp add: owned_def)
  moreover have "\<forall>a. next_free (mark_top s) \<le> a \<longrightarrow> heap (mark_top s) a = new_vertex"
    using D(3) D(2) [OF p_own] by (auto simp: heap' h'_def)
  moreover have "\<forall>a. a \<notin> set (root_vertex (mark_top s)
                        # map vertex_ptr (unminimized_path (mark_top s))) \<longrightarrow>
          targets (heap (mark_top s) a) \<subseteq> set (minimized_vertices (mark_top s))"
    using D(4) by (simp add: heap' tg)
  moreover have "chain (heap (mark_top s)) (set (minimized_vertices (mark_top s)))
                   (root_vertex (mark_top s)) (unminimized_path (mark_top s))"
    using D(5) by (simp add: heap' h'_def chain_mark)
  moreover have "targets (heap (mark_top s) (path_top (mark_top s)))
                   \<subseteq> set (minimized_vertices (mark_top s))"
    using D(6) by (simp add: heap' tg)
  moreover have "\<forall>a. keys_sorted (edges (heap (mark_top s) a))"
    using D(7) by (simp add: heap' ed)
  moreover have "\<forall>x\<in>set (minimized_vertices (mark_top s)).
                   \<forall>y\<in>set (minimized_vertices (mark_top s)).
                     heap (mark_top s) x = heap (mark_top s) y \<longrightarrow> x = y"
    using D(8) p_notR by (auto simp: heap' h'_def)
  ultimately show ?thesis
    unfolding heap_inv_def by blast
qed

lemma heap_inv_pushes:
  "heap_inv s \<Longrightarrow> heap_inv (foldl (\<lambda>dag c. push_vertex c dag) s suffix)"
  by (induction suffix arbitrary: s) (simp_all add: heap_inv_push)

lemma heap_inv_add_suffix: "heap_inv s \<Longrightarrow> heap_inv (add_suffix suffix s)"
  by (simp add: add_suffix_push heap_inv_mark heap_inv_pushes)

lemma heap_inv_funpow: "heap_inv s \<Longrightarrow> heap_inv ((minimize_step ^^ k) s)"
  by (induction k) (simp_all add: heap_inv_step)

lemma heap_inv_minimize_until: "heap_inv s \<Longrightarrow> heap_inv (minimize_until d s)"
  by (simp add: minimize_until_funpow heap_inv_funpow)

lemma path_top_prev [simp]: "path_top (s\<lparr>prev_word := w\<rparr>) = path_top s"
  by (simp add: path_top_def split: list.split)

lemma heap_inv_prev: "heap_inv (s\<lparr>prev_word := w\<rparr>) = heap_inv s"
  by (simp add: heap_inv_def owned_def)

lemma heap_inv_insert: "heap_inv s \<Longrightarrow> heap_inv (insert_word w s)"
  by (simp add: insert_word_def Let_def heap_inv_prev heap_inv_add_suffix
                heap_inv_minimize_until)

lemma heap_inv_insert_all: "heap_inv s \<Longrightarrow> heap_inv (insert_all ws s)"
  by (induction ws arbitrary: s) (simp_all add: insert_all_def heap_inv_insert)

section \<open>The registry is permanent\<close>

lemma path_top_not_registered:
  "heap_inv s \<Longrightarrow> path_top s \<notin> set (minimized_vertices s)"
  using heap_invD(1) [of s] parent_of_in [of "root_vertex s" "unminimized_path s"]
  by (auto simp: path_top_parent_of owned_def)

lemma registry_step:
  assumes inv: "heap_inv s" and r: "r \<in> set (minimized_vertices s)"
  shows "r \<in> set (minimized_vertices (minimize_step s)) \<and> heap (minimize_step s) r = heap s r"
proof (cases "unminimized_path s")
  case Nil
  with r show ?thesis by (simp add: minimize_step_def)
next
  case (Cons u rest)
  show ?thesis
  proof (cases "registry_find (heap s) (minimized_vertices s) (vertex_ptr u)")
    case None
    from minimize_step_new [OF Cons None] r show ?thesis by simp
  next
    case (Some c)
    have "parent_of (root_vertex s) rest \<in> set (root_vertex s # map vertex_ptr rest)"
      by (rule parent_of_in)
    with heap_invD(1) [OF inv] r have "r \<noteq> parent_of (root_vertex s) rest"
      by (auto simp: owned_def Cons)
    with minimize_step_found [OF Cons Some] r show ?thesis by simp
  qed
qed

lemma registry_push:
  assumes inv: "heap_inv s" and r: "r \<in> set (minimized_vertices s)"
  shows "r \<in> set (minimized_vertices (push_vertex c s)) \<and> heap (push_vertex c s) r = heap s r"
proof -
  have "r \<noteq> path_top s"
    using path_top_not_registered [OF inv] r by auto
  moreover have "r \<noteq> next_free s"
    using heap_invD(2) [OF inv, of r] r by (auto simp: owned_def)
  ultimately show ?thesis
    using r by (simp add: push_vertex_def Let_def)
qed

lemma registry_mark:
  assumes inv: "heap_inv s" and r: "r \<in> set (minimized_vertices s)"
  shows "r \<in> set (minimized_vertices (mark_top s)) \<and> heap (mark_top s) r = heap s r"
proof -
  have "r \<noteq> path_top s"
    using path_top_not_registered [OF inv] r by auto
  then show ?thesis
    using r by (simp add: mark_top_def)
qed

lemma registry_funpow:
  "heap_inv s \<Longrightarrow> r \<in> set (minimized_vertices s) \<Longrightarrow>
   r \<in> set (minimized_vertices ((minimize_step ^^ k) s)) \<and>
   heap ((minimize_step ^^ k) s) r = heap s r"
proof (induction k)
  case 0
  then show ?case by simp
next
  case (Suc k)
  then have "r \<in> set (minimized_vertices ((minimize_step ^^ k) s))"
    and eq: "heap ((minimize_step ^^ k) s) r = heap s r"
    by simp_all
  with registry_step [OF heap_inv_funpow [OF Suc.prems(1), of k]] show ?case
    by simp
qed

lemma registry_pushes:
  "heap_inv s \<Longrightarrow> r \<in> set (minimized_vertices s) \<Longrightarrow>
   r \<in> set (minimized_vertices (foldl (\<lambda>dag c. push_vertex c dag) s suffix)) \<and>
   heap (foldl (\<lambda>dag c. push_vertex c dag) s suffix) r = heap s r"
proof (induction suffix arbitrary: s)
  case Nil
  then show ?case by simp
next
  case (Cons c cs)
  from registry_push [OF Cons.prems] Cons.IH [OF heap_inv_push [OF Cons.prems(1)], of c]
  show ?case by simp
qed

lemma registry_insert:
  assumes inv: "heap_inv s" and r: "r \<in> set (minimized_vertices s)"
  shows "r \<in> set (minimized_vertices (insert_word w s)) \<and> heap (insert_word w s) r = heap s r"
proof -
  define s1 where "s1 = minimize_until (mismatch (prev_word s) w) s"
  define s2 where "s2 = foldl (\<lambda>dag c. push_vertex c dag) s1 (drop (mismatch (prev_word s) w) w)"
  have 1: "r \<in> set (minimized_vertices s1) \<and> heap s1 r = heap s r"
    unfolding s1_def minimize_until_funpow using inv r by (rule registry_funpow)
  have i1: "heap_inv s1"
    unfolding s1_def using inv by (rule heap_inv_minimize_until)
  have 2: "r \<in> set (minimized_vertices s2) \<and> heap s2 r = heap s1 r"
    unfolding s2_def using i1 1 by (intro registry_pushes) simp_all
  have i2: "heap_inv s2"
    unfolding s2_def using i1 by (rule heap_inv_pushes)
  have 3: "r \<in> set (minimized_vertices (mark_top s2)) \<and> heap (mark_top s2) r = heap s2 r"
    using i2 2 by (intro registry_mark) simp_all
  have "insert_word w s = (mark_top s2)\<lparr>prev_word := w\<rparr>"
    by (simp add: insert_word_def Let_def add_suffix_push s2_def s1_def)
  with 1 2 3 show ?thesis by simp
qed

lemma registry_insert_all:
  "heap_inv s \<Longrightarrow> r \<in> set (minimized_vertices s) \<Longrightarrow>
   r \<in> set (minimized_vertices (insert_all ws s)) \<and> heap (insert_all ws s) r = heap s r"
proof (induction ws arbitrary: s)
  case Nil
  then show ?case by (simp add: insert_all_def)
next
  case (Cons w ws)
  from registry_insert [OF Cons.prems, of w]
    Cons.IH [OF heap_inv_insert [OF Cons.prems(1)], of w]
  show ?case by (simp add: insert_all_def)
qed

lemma insert_all_append: "insert_all (ws @ ws') s = insert_all ws' (insert_all ws s)"
  by (simp add: insert_all_def)

lemma heap_inv_during: "heap_inv (state_during ws k suffix)"
  unfolding state_during_def
  by (intro heap_inv_pushes heap_inv_funpow heap_inv_insert_all heap_inv_empty)

lemma contains_loop_same:
  "h a = h b \<Longrightarrow> contains_loop h a x = contains_loop h b x"
  by (cases x) simp_all

section \<open>The path spells the previous word\<close>

lemma mismatch_le: "mismatch xs ys \<le> length xs" "mismatch xs ys \<le> length ys"
  by (induction xs ys rule: mismatch.induct) simp_all

lemma mismatch_take: "take (mismatch xs ys) xs = take (mismatch xs ys) ys"
  by (induction xs ys rule: mismatch.induct) simp_all

lemma mismatch_same [simp]: "mismatch xs xs = length xs"
  by (induction xs) simp_all

lemma path_labels_until:
  "d \<le> length (unminimized_path s) \<Longrightarrow>
   path_labels (minimize_until d s) = take d (path_labels s)"
  by (simp add: path_labels_def minimize_until_path rev_drop take_map)

lemma path_labels_pushes:
  "path_labels (foldl (\<lambda>dag c. push_vertex c dag) s suffix) = path_labels s @ suffix"
  by (induction suffix arbitrary: s) (simp_all add: path_labels_def)

lemma path_labels_mark [simp]: "path_labels (mark_top s) = path_labels s"
  by (simp add: path_labels_def)

lemma path_labels_add_suffix:
  "path_labels (add_suffix suffix s) = path_labels s @ suffix"
  by (simp add: add_suffix_push path_labels_pushes)

lemma path_labels_length: "length (path_labels s) = length (unminimized_path s)"
  by (simp add: path_labels_def)

lemma prev_word_insert [simp]: "prev_word (insert_word w s) = w"
  by (simp add: insert_word_def Let_def)

lemma path_labels_insert:
  assumes "path_labels s = prev_word s"
  shows "path_labels (insert_word w s) = w"
proof -
  define d where "d = mismatch (prev_word s) w"
  have "d \<le> length (unminimized_path s)"
    using mismatch_le(1) [of "prev_word s" w] assms path_labels_length [of s]
    by (simp add: d_def)
  then have "path_labels (minimize_until d s) = take d (prev_word s)"
    using assms by (simp add: path_labels_until)
  also have "\<dots> = take d w"
    unfolding d_def by (rule mismatch_take)
  finally have "path_labels (add_suffix (drop d w) (minimize_until d s)) = w"
    by (simp add: path_labels_add_suffix)
  then show ?thesis
    by (simp add: insert_word_def Let_def d_def path_labels_def)
qed

lemma path_labels_insert_all:
  "path_labels s = prev_word s \<Longrightarrow>
   path_labels (insert_all ws s) = prev_word (insert_all ws s)"
  by (induction ws arbitrary: s) (simp_all add: insert_all_def path_labels_insert)

lemma path_labels_run:
  "path_labels (insert_all ws empty_dagger) = prev_word (insert_all ws empty_dagger)"
  by (rule path_labels_insert_all) (simp add: path_labels_def empty_dagger_def)

lemma accepting_top_insert:
  "is_accepting (heap (insert_word w s) (path_top (insert_word w s)))"
  by (simp add: insert_word_def Let_def add_suffix_push) (simp add: mark_top_def)

lemma mark_word_end_idem: "is_accepting v \<Longrightarrow> mark_word_end v = v"
  by (cases v) (simp add: mark_word_end_def)

lemma mark_top_idem: "is_accepting (heap s (path_top s)) \<Longrightarrow> mark_top s = s"
  by (simp add: mark_top_def mark_word_end_idem)

lemma minimize_until_noop:
  "length (unminimized_path s) \<le> d \<Longrightarrow> minimize_until d s = s"
  by (subst minimize_until.simps) simp

lemma insert_word_again:
  assumes "path_labels s = prev_word s" and "prev_word s = w"
  shows "insert_word w s = mark_top s"
proof -
  have "length (unminimized_path s) = length w"
    using assms path_labels_length [of s] by simp
  then have "minimize_until (length w) s = s"
    by (simp add: minimize_until_noop)
  then have "insert_word w s = (mark_top s)\<lparr>prev_word := w\<rparr>"
    using assms(2) by (simp add: insert_word_def Let_def add_suffix_push)
  moreover have "prev_word (mark_top s) = w"
    using assms(2) by simp
  ultimately show ?thesis
    by (metis dagger.surjective dagger.update_convs(1))
qed

lemma registry_run:
  assumes "r \<in> set (minimized_vertices (insert_all ws empty_dagger))"
  shows "r \<in> set (minimized_vertices (from_dictionary (ws @ ws'))) \<and>
         heap (from_dictionary (ws @ ws')) r = heap (insert_all ws empty_dagger) r"
proof -
  define s where "s = insert_all ws empty_dagger"
  define s' where "s' = insert_all ws' s"
  have i: "heap_inv s"
    unfolding s_def by (intro heap_inv_insert_all heap_inv_empty)
  have 1: "r \<in> set (minimized_vertices s') \<and> heap s' r = heap s r"
    unfolding s'_def using i assms by (intro registry_insert_all) (simp_all add: s_def)
  have i': "heap_inv s'"
    unfolding s'_def using i by (rule heap_inv_insert_all)
  have "from_dictionary (ws @ ws') = (minimize_step ^^ (length (unminimized_path s') - 0)) s'"
    by (simp add: from_dictionary_def finish_minimization_def minimize_until_funpow
                  insert_all_append s'_def s_def)
  with registry_funpow [OF i', of r] 1 show ?thesis
    by (simp add: s_def)
qed

section \<open>Walks and accepted strings\<close>

lemma walk_append:
  "walk h a (u @ v) = (case walk h a u of None \<Rightarrow> None | Some b \<Rightarrow> walk h b v)"
  by (induction u arbitrary: a) (simp_all split: option.split)

lemma contains_loop_append:
  "contains_loop h a (u @ v)
     = (case walk h a u of None \<Rightarrow> False | Some b \<Rightarrow> contains_loop h b v)"
  by (induction u arbitrary: a) (simp_all split: option.split)

lemma walk_same: "h a = h b \<Longrightarrow> u \<noteq> [] \<Longrightarrow> walk h a u = walk h b u"
  by (cases u) simp_all

lemma contains_loop_empty_vertex: "h a = new_vertex \<Longrightarrow> \<not> contains_loop h a x"
  by (cases x) (simp_all add: map_find_def)

lemma map_find_target: "map_find k (edges v) = Some t \<Longrightarrow> t \<in> targets v"
  by (force simp: targets_def dest: map_find_in_set)

lemma contains_loop_frame:
  assumes "\<forall>a\<in>S. targets (h a) \<subseteq> S" and "\<forall>a\<in>S. h' a = h a"
  shows "a \<in> S \<Longrightarrow> contains_loop h' a x = contains_loop h a x"
proof (induction x arbitrary: a)
  case Nil
  with assms show ?case by simp
next
  case (Cons k x)
  show ?case
  proof (cases "map_find k (edges (h a))")
    case None
    with Cons.prems assms show ?thesis by simp
  next
    case (Some t)
    then have "t \<in> S"
      using assms(1) Cons.prems map_find_target by blast
    with Cons.IH [of t] Some Cons.prems assms show ?thesis by simp
  qed
qed

lemma contains_loop_redirect:
  assumes h': "h' = h(p := set_edge l c (h p))"
    and edge: "map_find l (edges (h p)) = Some v"
    and same: "h c = h v"
  shows "contains_loop h' a x = contains_loop h a x"
proof (induction x arbitrary: a)
  case Nil
  show ?case by (simp add: h')
next
  case (Cons k x)
  show ?case
  proof (cases "a = p \<and> k = l")
    case True
    then have "contains_loop h' a (k # x) = contains_loop h' c x"
      by (simp add: h' map_find_assign)
    also have "\<dots> = contains_loop h c x"
      by (rule Cons.IH)
    also have "\<dots> = contains_loop h v x"
      using same by (rule contains_loop_same)
    also have "\<dots> = contains_loop h a (k # x)"
      using True edge by simp
    finally show ?thesis .
  next
    case False
    then have "map_find k (edges (h' a)) = map_find k (edges (h a))"
      by (auto simp: h' map_find_assign)
    then show ?thesis
      by (simp add: Cons.IH split: option.split)
  qed
qed

lemma walk_redirect:
  assumes h': "h' = h(p := set_edge l c (h p))"
    and edge: "map_find l (edges (h p)) = Some v"
    and same: "h c = h v"
    and cv: "c \<noteq> v"
    and only: "\<And>a k. map_find k (edges (h a)) = Some v \<Longrightarrow> a = p \<and> k = l"
  shows "a \<noteq> v \<Longrightarrow> walk h a u = Some z \<Longrightarrow> walk h' a u = Some (if z = v then c else z)"
proof (induction u arbitrary: a)
  case Nil
  then show ?case by auto
next
  case (Cons k u)
  from Cons.prems(2) obtain t where t: "map_find k (edges (h a)) = Some t"
    and wt: "walk h t u = Some z"
    by (auto split: option.splits)
  show ?case
  proof (cases "t = v")
    case True
    with only t have a: "a = p" "k = l" by auto
    have step: "walk h' a (k # u) = walk h' c u"
      by (simp add: a h' map_find_assign)
    show ?thesis
    proof (cases u)
      case Nil
      with wt True step show ?thesis by simp
    next
      case (Cons k' u')
      then have "walk h c u = walk h v u"
        using same by (intro walk_same) simp_all
      with wt True have "walk h c u = Some z" by simp
      from Cons.IH [OF cv this] step show ?thesis by simp
    qed
  next
    case False
    have "map_find k (edges (h' a)) = Some t"
    proof (cases "a = p")
      case True
      with t edge False have "k \<noteq> l" by auto
      with t True show ?thesis by (simp add: h' map_find_assign)
    next
      case False
      with t show ?thesis by (simp add: h')
    qed
    with Cons.IH [OF False wt] show ?thesis by simp
  qed
qed

lemma walk_mono:
  assumes "\<And>a k t. map_find k (edges (h a)) = Some t \<Longrightarrow> map_find k (edges (h' a)) = Some t"
  shows "walk h a u = Some z \<Longrightarrow> walk h' a u = Some z"
proof (induction u arbitrary: a)
  case Nil
  then show ?case by simp
next
  case (Cons k u)
  then obtain t where t: "map_find k (edges (h a)) = Some t" and wt: "walk h t u = Some z"
    by (auto split: option.splits)
  from assms [OF t] Cons.IH [OF wt] show ?case by simp
qed

lemma chain_walk:
  "chain h R r path \<Longrightarrow> walk h r (map edge_from_parent (rev path)) = Some (parent_of r path)"
proof (induction path)
  case Nil
  show ?case by (simp add: parent_of_def)
next
  case (Cons u rest)
  then have "walk h r (map edge_from_parent (rev rest)) = Some (parent_of r rest)"
    and "map_find (edge_from_parent u) (edges (h (parent_of r rest))) = Some (vertex_ptr u)"
    by simp_all
  then show ?case
    by (simp add: walk_append parent_of_def)
qed

lemma chain_edge_cases:
  "chain h R r path \<Longrightarrow> a \<in> set (r # map vertex_ptr path) \<Longrightarrow> a \<noteq> parent_of r path \<Longrightarrow>
   map_find k (edges (h a)) = Some t \<Longrightarrow> t \<in> R \<or> t \<in> set (map vertex_ptr path)"
proof (induction path)
  case Nil
  then show ?case by (simp add: parent_of_def)
next
  case (Cons u rest)
  from Cons.prems(2,3) have a: "a \<in> set (r # map vertex_ptr rest)"
    by (auto simp: parent_of_def)
  show ?case
  proof (cases "a = parent_of r rest")
    case True
    with Cons.prems(1,4) show ?thesis
      by (cases "k = edge_from_parent u") auto
  next
    case False
    have "chain h R r rest"
      using Cons.prems(1) by simp
    from Cons.IH [OF this a False Cons.prems(4)] show ?thesis by auto
  qed
qed

lemma only_parent_refers:
  assumes inv: "heap_inv s" and path: "unminimized_path s = u # rest"
    and edge: "map_find k (edges (heap s a)) = Some (vertex_ptr u)"
  shows "a = parent_of (root_vertex s) rest \<and> k = edge_from_parent u"
proof -
  note D = heap_invD [OF inv]
  define R where "R = set (minimized_vertices s)"
  define r where "r = root_vertex s"
  have dist: "distinct (r # vertex_ptr u # map vertex_ptr rest @ minimized_vertices s)"
    using D(1) by (simp add: owned_def path r_def)
  have vR: "vertex_ptr u \<notin> R" and vrest: "vertex_ptr u \<notin> set (map vertex_ptr rest)"
    using dist by (auto simp: R_def)
  have ch: "chain (heap s) R r (u # rest)"
    using D(5) by (simp add: path R_def r_def)
  have tg: "vertex_ptr u \<in> targets (heap s a)"
    using edge by (rule map_find_target)
  have a_in: "a \<in> set (r # map vertex_ptr rest)"
  proof (rule ccontr)
    assume n: "a \<notin> set (r # map vertex_ptr rest)"
    show False
    proof (cases "a = vertex_ptr u")
      case True
      with D(6) tg vR show False
        by (auto simp: path_top_def path R_def)
    next
      case False
      with n D(4) [of a] tg vR show False
        by (auto simp: path r_def R_def)
    qed
  qed
  show ?thesis
  proof (cases "a = parent_of r rest")
    case True
    with ch edge vR show ?thesis
      by (cases "k = edge_from_parent u") (auto simp: r_def)
  next
    case False
    have "chain (heap s) R r rest"
      using ch by simp
    from chain_edge_cases [OF this a_in False edge] vR vrest show ?thesis by auto
  qed
qed

section \<open>The loop of \<open>minimize_until\<close> on an ascending input\<close>

lemma ordered_cong:
  "\<forall>a\<in>set (r # map vertex_ptr (tl path)). edges (h' a) = edges (h a) \<Longrightarrow>
   ordered h' r path = ordered h r path"
proof (induction path)
  case Nil
  show ?case by simp
next
  case (Cons u rest)
  have p: "parent_of r rest \<in> set (r # map vertex_ptr rest)"
    by (rule parent_of_in)
  have "\<forall>a\<in>set (r # map vertex_ptr (tl rest)). edges (h' a) = edges (h a)"
    using Cons.prems by (cases rest) auto
  from Cons.IH [OF this] Cons.prems p show ?case
    by auto
qed

lemma core_invD:
  assumes "core_inv s"
  shows "heap_inv s"
    and "ordered (heap s) (root_vertex s) (unminimized_path s)"
    and "\<And>x. x \<in> set (minimized_vertices s) \<Longrightarrow> \<exists>w. contains_loop (heap s) x w"
    and "\<And>x. x \<in> set (minimized_vertices s) \<Longrightarrow> \<exists>u. walk (heap s) (root_vertex s) u = Some x"
  using assms by (simp_all add: core_inv_def)

lemma min_invD:
  assumes "min_inv s"
  shows "core_inv s"
    and "path_labels s = take (length (unminimized_path s)) (prev_word s)"
    and "length (unminimized_path s) \<le> length (prev_word s)"
    and "\<And>k. k \<in> fst ` set (edges (heap s (path_top s))) \<Longrightarrow>
           length (unminimized_path s) < length (prev_word s) \<and>
           k \<le> prev_word s ! length (unminimized_path s)"
    and "unminimized_path s = [] \<or> (\<exists>w. contains_loop (heap s) (path_top s) w)"
proof -
  from assms show "core_inv s"
    by (simp add: min_inv_def)
  from assms show "path_labels s = take (length (unminimized_path s)) (prev_word s)"
    by (simp add: min_inv_def)
  from assms show "length (unminimized_path s) \<le> length (prev_word s)"
    by (simp add: min_inv_def)
  from assms show "unminimized_path s = [] \<or> (\<exists>w. contains_loop (heap s) (path_top s) w)"
    by (simp add: min_inv_def)
  fix k assume "k \<in> fst ` set (edges (heap s (path_top s)))"
  moreover from assms have "\<forall>k\<in>fst ` set (edges (heap s (path_top s))).
        length (unminimized_path s) < length (prev_word s) \<and>
        k \<le> prev_word s ! length (unminimized_path s)"
    unfolding min_inv_def by (elim conjE)
  ultimately show "length (unminimized_path s) < length (prev_word s) \<and>
           k \<le> prev_word s ! length (unminimized_path s)"
    by (rule bspec [rotated])
qed

lemma take_snoc_nth:
  assumes "xs @ [l] = take (Suc m) ys" and "length xs = m"
  shows "xs = take m ys \<and> m < length ys \<and> ys ! m = l"
proof -
  have "length (xs @ [l]) = Suc m"
    using assms(2) by simp
  then have "length (take (Suc m) ys) = Suc m"
    unfolding assms(1) .
  then have m: "m < length ys"
    by simp
  then have "take (Suc m) ys = take m ys @ [ys ! m]"
    by (rule take_Suc_conv_app_nth)
  then have "xs @ [l] = take m ys @ [ys ! m]"
    unfolding assms(1) [symmetric] .
  then have "xs = take m ys \<and> l = ys ! m"
    by (rule append1_eq_conv [THEN iffD1])
  with m show ?thesis by blast
qed

lemma min_inv_step_found:
  assumes inv: "min_inv s"
    and path: "unminimized_path s = u # rest"
    and found: "registry_find (heap s) (minimized_vertices s) (vertex_ptr u) = Some c"
  shows "min_inv (minimize_step s)"
    and "\<And>a x. contains_loop (heap (minimize_step s)) a x = contains_loop (heap s) a x"
proof -
  define r where "r = root_vertex s"
  define p where "p = parent_of r rest"
  define R where "R = set (minimized_vertices s)"
  define h where "h = heap s"
  define l where "l = edge_from_parent u"
  define v where "v = vertex_ptr u"
  define h' where "h' = h(p := set_edge l c (h p))"
  define s' where "s' = minimize_step s"
  have step: "s' = s\<lparr>unminimized_path := rest, heap := h'\<rparr>"
    unfolding s'_def using minimize_step_found [OF path found]
    by (simp add: h'_def h_def p_def r_def l_def)
  note M = min_invD [OF inv]
  note C = core_invD [OF M(1)]
  note D = heap_invD [OF C(1)]
  have hinv': "heap_inv s'"
    unfolding s'_def using C(1) by (rule heap_inv_step)
  have cR: "c \<in> R" and hc: "h c = h v"
    using registry_find_Some [OF found] by (simp_all add: R_def h_def v_def)
  have dist: "distinct (r # v # map vertex_ptr rest @ minimized_vertices s)"
    using D(1) by (simp add: owned_def path r_def v_def)
  have vR: "v \<notin> R" and rv: "r \<noteq> v"
    using dist by (auto simp: R_def)
  have cv: "c \<noteq> v"
    using cR vR by auto
  have edge: "map_find l (edges (h p)) = Some v"
    using D(5) by (simp add: path h_def p_def r_def l_def v_def)
  have lang: "\<And>a x. contains_loop h' a x = contains_loop h a x"
    using h'_def edge hc by (rule contains_loop_redirect)
  have only: "\<And>a k. map_find k (edges (h a)) = Some v \<Longrightarrow> a = p \<and> k = l"
    using only_parent_refers [OF C(1) path] by (simp add: h_def v_def p_def r_def l_def)
  have ord: "ordered h r (u # rest)"
    using C(2) by (simp add: path h_def r_def)
  have F: "heap s' = h'" "root_vertex s' = r" "minimized_vertices s' = minimized_vertices s"
    "unminimized_path s' = rest" "prev_word s' = prev_word s" "path_top s' = p"
    by (simp_all add: step r_def path_top_parent_of p_def)
  have lab: "map edge_from_parent (rev rest) @ [l] = take (Suc (length rest)) (prev_word s)"
    using M(2) by (simp add: path_labels_def path l_def)
  from take_snoc_nth [OF lab] have lab': "map edge_from_parent (rev rest)
      = take (length rest) (prev_word s)"
    and len: "length rest < length (prev_word s)" and nth: "prev_word s ! length rest = l"
    by simp_all
  have "ordered h' r rest"
  proof (cases rest)
    case Nil
    then show ?thesis by simp
  next
    case (Cons u' rest')
    have "p \<notin> set (r # map vertex_ptr (tl rest))"
      unfolding p_def using dist Cons by (intro parent_of_notin_tl) auto
    then have "\<forall>a\<in>set (r # map vertex_ptr (tl rest)). edges (h' a) = edges (h a)"
      by (metis fun_upd_other h'_def)
    then have "ordered h' r rest = ordered h r rest"
      by (rule ordered_cong)
    with ord show ?thesis by simp
  qed
  moreover have "\<forall>x\<in>R. \<exists>w. contains_loop h' x w"
    using C(3) by (simp add: lang R_def h_def)
  moreover have "\<forall>x\<in>R. \<exists>w. walk h' r w = Some x"
  proof
    fix x assume x: "x \<in> R"
    then obtain w where "walk h r w = Some x"
      using C(4) [of x] by (auto simp: R_def h_def r_def)
    from walk_redirect [OF h'_def edge hc cv only rv this] x vR
    have "walk h' r w = Some x" by (cases "x = v") simp_all
    then show "\<exists>w. walk h' r w = Some x" ..
  qed
  ultimately have core: "core_inv s'"
    unfolding core_inv_def F using hinv' by (simp add: R_def)
  have keys: "\<forall>k\<in>fst ` set (edges (h' p)). k \<le> l"
    using ord by (simp add: h'_def keys_map_assign p_def l_def)
  obtain w0 where "contains_loop h' c w0"
    using C(3) [of c] cR by (auto simp: lang R_def h_def)
  then have "contains_loop h' p (l # w0)"
    by (simp add: h'_def map_find_assign)
  then have top: "\<exists>w. contains_loop h' p w" ..
  have 1: "path_labels s' = take (length (unminimized_path s')) (prev_word s')"
    using lab' by (simp add: path_labels_def F)
  have 2: "length (unminimized_path s') \<le> length (prev_word s')"
    using len by (simp add: F)
  have 3: "\<forall>k\<in>fst ` set (edges (heap s' (path_top s'))).
      length (unminimized_path s') < length (prev_word s') \<and>
      k \<le> prev_word s' ! length (unminimized_path s')"
    unfolding F using keys len nth by simp
  have 4: "unminimized_path s' = [] \<or> (\<exists>w. contains_loop (heap s') (path_top s') w)"
    unfolding F using top by simp
  show "min_inv s'"
    unfolding min_inv_def by (intro conjI core 1 2 3 4)
  show "\<And>a x. contains_loop (heap s') a x = contains_loop (heap s) a x"
    unfolding F h_def [symmetric] by (rule lang)
qed

lemma min_inv_step_new:
  assumes inv: "min_inv s"
    and path: "unminimized_path s = u # rest"
    and nofind: "registry_find (heap s) (minimized_vertices s) (vertex_ptr u) = None"
  shows "min_inv (minimize_step s)"
    and "\<And>a x. contains_loop (heap (minimize_step s)) a x = contains_loop (heap s) a x"
proof -
  define r where "r = root_vertex s"
  define p where "p = parent_of r rest"
  define R where "R = set (minimized_vertices s)"
  define h where "h = heap s"
  define l where "l = edge_from_parent u"
  define v where "v = vertex_ptr u"
  define s' where "s' = minimize_step s"
  have step: "s' = s\<lparr>unminimized_path := rest,
                      minimized_vertices := minimized_vertices s @ [v]\<rparr>"
    unfolding s'_def v_def using minimize_step_new [OF path nofind] .
  note M = min_invD [OF inv]
  note C = core_invD [OF M(1)]
  note D = heap_invD [OF C(1)]
  have hinv': "heap_inv s'"
    unfolding s'_def using C(1) by (rule heap_inv_step)
  have F: "heap s' = h" "root_vertex s' = r" "set (minimized_vertices s') = insert v R"
    "unminimized_path s' = rest" "prev_word s' = prev_word s" "path_top s' = p"
    by (simp_all add: step r_def path_top_parent_of p_def h_def R_def)
  have top: "path_top s = v"
    by (simp add: path_top_def path v_def)
  have edge: "map_find l (edges (h p)) = Some v"
    using D(5) by (simp add: path h_def p_def r_def l_def v_def)
  have ord: "ordered h r (u # rest)"
    using C(2) by (simp add: path h_def r_def)
  have lab: "map edge_from_parent (rev rest) @ [l] = take (Suc (length rest)) (prev_word s)"
    using M(2) by (simp add: path_labels_def path l_def)
  from take_snoc_nth [OF lab] have lab': "map edge_from_parent (rev rest)
      = take (length rest) (prev_word s)"
    and len: "length rest < length (prev_word s)" and nth: "prev_word s ! length rest = l"
    by simp_all
  obtain w0 where w0: "contains_loop h v w0"
    using M(5) by (auto simp: path top h_def)
  have "walk h r (map edge_from_parent (rev (u # rest))) = Some (parent_of r (u # rest))"
    using D(5) unfolding path h_def r_def by (rule chain_walk)
  then have reach: "\<exists>w. walk h r w = Some v"
    by (auto simp: parent_of_def v_def)
  have "ordered h r rest"
    using ord by simp
  moreover have "\<forall>x\<in>insert v R. \<exists>w. contains_loop h x w"
    using C(3) w0 by (auto simp: R_def h_def)
  moreover have "\<forall>x\<in>insert v R. \<exists>w. walk h r w = Some x"
    using C(4) reach by (auto simp: R_def h_def r_def)
  ultimately have core: "core_inv s'"
    unfolding core_inv_def F using hinv' by simp
  have keys: "\<forall>k\<in>fst ` set (edges (h p)). k \<le> l"
    using ord by (simp add: p_def l_def)
  have "contains_loop h p (l # w0)"
    using edge w0 by simp
  then have nonempty: "\<exists>w. contains_loop h p w" ..
  have 1: "path_labels s' = take (length (unminimized_path s')) (prev_word s')"
    using lab' by (simp add: path_labels_def F)
  have 2: "length (unminimized_path s') \<le> length (prev_word s')"
    using len by (simp add: F)
  have 3: "\<forall>k\<in>fst ` set (edges (heap s' (path_top s'))).
      length (unminimized_path s') < length (prev_word s') \<and>
      k \<le> prev_word s' ! length (unminimized_path s')"
    unfolding F using keys len nth by simp
  have 4: "unminimized_path s' = [] \<or> (\<exists>w. contains_loop (heap s') (path_top s') w)"
    unfolding F using nonempty by simp
  show "min_inv s'"
    unfolding min_inv_def by (intro conjI core 1 2 3 4)
  show "\<And>a x. contains_loop (heap s') a x = contains_loop (heap s) a x"
    unfolding F h_def [symmetric] by (rule refl)
qed

lemma min_inv_step:
  assumes "min_inv s"
  shows "min_inv (minimize_step s) \<and>
         (\<forall>a x. contains_loop (heap (minimize_step s)) a x = contains_loop (heap s) a x)"
proof (cases "unminimized_path s")
  case Nil
  with assms show ?thesis by (simp add: minimize_step_def)
next
  case (Cons u rest)
  show ?thesis
  proof (cases "registry_find (heap s) (minimized_vertices s) (vertex_ptr u)")
    case None
    show ?thesis
      using min_inv_step_new(1) [OF assms Cons None] min_inv_step_new(2) [OF assms Cons None]
      by simp
  next
    case (Some c)
    show ?thesis
      using min_inv_step_found(1) [OF assms Cons Some]
        min_inv_step_found(2) [OF assms Cons Some]
      by simp
  qed
qed

lemma min_inv_funpow:
  "min_inv s \<Longrightarrow>
   min_inv ((minimize_step ^^ k) s) \<and>
   (\<forall>a x. contains_loop (heap ((minimize_step ^^ k) s)) a x = contains_loop (heap s) a x)"
proof (induction k)
  case 0
  then show ?case by simp
next
  case (Suc k)
  then have "min_inv ((minimize_step ^^ k) s)"
    and eq: "\<forall>a x. contains_loop (heap ((minimize_step ^^ k) s)) a x = contains_loop (heap s) a x"
    by simp_all
  from min_inv_step [OF this(1)] eq show ?case by simp
qed

lemma min_inv_until:
  "min_inv s \<Longrightarrow>
   min_inv (minimize_until d s) \<and>
   (\<forall>a x. contains_loop (heap (minimize_until d s)) a x = contains_loop (heap s) a x)"
  unfolding minimize_until_funpow by (rule min_inv_funpow)

section \<open>Extending the path on an ascending input\<close>

lemma mismatch_less:
  fixes xs ys :: string
  shows "xs \<le> ys \<Longrightarrow> mismatch xs ys < length xs \<Longrightarrow>
         mismatch xs ys < length ys \<and> xs ! mismatch xs ys < ys ! mismatch xs ys"
proof (induction xs ys rule: mismatch.induct)
  case (1 x xs y ys)
  show ?case
  proof (cases "x = y")
    case True
    with "1.prems" have "xs \<le> ys" and "mismatch xs ys < length xs"
      by simp_all
    with "1.IH" [OF True] True show ?thesis by simp
  next
    case False
    with "1.prems" show ?thesis by simp
  qed
qed simp_all

lemma contains_loop_push:
  assumes h': "h' = h(p := set_edge c nv (h p))"
    and none: "map_find c (edges (h p)) = None"
    and fresh: "h nv = new_vertex"
  shows "contains_loop h' a x = contains_loop h a x"
proof (induction x arbitrary: a)
  case Nil
  show ?case by (simp add: h')
next
  case (Cons k x)
  show ?case
  proof (cases "a = p \<and> k = c")
    case True
    then have "contains_loop h' a (k # x) = contains_loop h' nv x"
      by (simp add: h' map_find_assign)
    also have "\<dots> = contains_loop h nv x"
      by (rule Cons.IH)
    also have "\<dots> = False"
      using fresh by (simp add: contains_loop_empty_vertex)
    also have "\<dots> = contains_loop h a (k # x)"
      using True none by simp
    finally show ?thesis .
  next
    case False
    then have "map_find k (edges (h' a)) = map_find k (edges (h a))"
      by (auto simp: h' map_find_assign)
    then show ?thesis
      by (simp add: Cons.IH split: option.split)
  qed
qed

lemma core_inv_push:
  assumes inv: "core_inv s"
    and keys: "\<forall>k\<in>fst ` set (edges (heap s (path_top s))). k < c"
  shows "core_inv (push_vertex c s)"
    and "\<And>a x. contains_loop (heap (push_vertex c s)) a x = contains_loop (heap s) a x"
    and "edges (heap (push_vertex c s) (path_top (push_vertex c s))) = []"
proof -
  define r where "r = root_vertex s"
  define P where "P = unminimized_path s"
  define p where "p = path_top s"
  define R where "R = set (minimized_vertices s)"
  define h where "h = heap s"
  define nv where "nv = next_free s"
  define h' where "h' = h(p := set_edge c nv (h p))"
  define s' where "s' = push_vertex c s"
  note C = core_invD [OF inv]
  note D = heap_invD [OF C(1)]
  have p_lt: "p < nv"
    using D(2) [OF path_top_owned] by (simp add: p_def nv_def)
  have fresh: "h nv = new_vertex"
    using D(3) [of nv] by (simp add: h_def nv_def)
  then have "h(nv := new_vertex) = h"
    by (metis fun_upd_triv)
  then have heap': "heap s' = h'"
    using p_lt fresh
    by (simp add: s'_def push_vertex_def Let_def h'_def h_def [symmetric] nv_def [symmetric]
                  p_def [symmetric])
  have F: "root_vertex s' = r" "set (minimized_vertices s') = R"
    "unminimized_path s' = \<lparr>vertex_ptr = nv, edge_from_parent = c\<rparr> # P"
    "path_top s' = nv"
    by (simp_all add: s'_def r_def R_def P_def nv_def)
  have none: "map_find c (edges (h p)) = None"
    using keys by (auto simp: map_find_None_iff h_def p_def)
  have lang: "\<And>a x. contains_loop h' a x = contains_loop h a x"
    using h'_def none fresh by (rule contains_loop_push)
  have mono: "\<And>a k t. map_find k (edges (h a)) = Some t \<Longrightarrow> map_find k (edges (h' a)) = Some t"
    using none by (auto simp: h'_def map_find_assign)
  have dist: "distinct (r # map vertex_ptr P @ minimized_vertices s)"
    using D(1) by (simp add: owned_def r_def P_def)
  have pp: "parent_of r P = p"
    by (simp add: p_def path_top_parent_of r_def P_def)
  have "ordered h' r P"
  proof (cases P)
    case Nil
    then show ?thesis by simp
  next
    case (Cons u' P')
    have "p \<notin> set (r # map vertex_ptr (tl P))"
      unfolding pp [symmetric] using dist Cons by (intro parent_of_notin_tl) auto
    then have "\<forall>a\<in>set (r # map vertex_ptr (tl P)). edges (h' a) = edges (h a)"
      by (metis fun_upd_other h'_def)
    then have "ordered h' r P = ordered h r P"
      by (rule ordered_cong)
    with C(2) show ?thesis
      by (simp add: h_def r_def P_def)
  qed
  moreover have "\<forall>k\<in>fst ` set (edges (h' p)). k \<le> c"
    using keys by (auto simp: h'_def keys_map_assign h_def p_def)
  ultimately have ord: "ordered h' r (\<lparr>vertex_ptr = nv, edge_from_parent = c\<rparr> # P)"
    by (simp add: pp)
  have trim: "\<forall>x\<in>R. \<exists>w. contains_loop h' x w"
    using C(3) by (simp add: lang R_def h_def)
  have reach: "\<forall>x\<in>R. \<exists>w. walk h' r w = Some x"
  proof
    fix x assume "x \<in> R"
    then obtain w where "walk h r w = Some x"
      using C(4) [of x] by (auto simp: R_def h_def r_def)
    then have "walk h' r w = Some x"
      using mono by (rule walk_mono [rotated])
    then show "\<exists>w. walk h' r w = Some x" ..
  qed
  have "heap_inv s'"
    unfolding s'_def using C(1) by (rule heap_inv_push)
  then show "core_inv (push_vertex c s)"
    unfolding core_inv_def s'_def [symmetric] heap' F using ord trim reach by simp
  show "\<And>a x. contains_loop (heap (push_vertex c s)) a x = contains_loop (heap s) a x"
    unfolding s'_def [symmetric] heap' h_def [symmetric] by (rule lang)
  have "h' nv = new_vertex"
    using p_lt fresh by (simp add: h'_def)
  then show "edges (heap (push_vertex c s) (path_top (push_vertex c s))) = []"
    unfolding s'_def [symmetric] heap' F by simp
qed

lemma core_inv_pushes:
  assumes "core_inv s"
    and "suffix \<noteq> [] \<longrightarrow> (\<forall>k\<in>fst ` set (edges (heap s (path_top s))). k < hd suffix)"
  shows "core_inv (foldl (\<lambda>dag c. push_vertex c dag) s suffix) \<and>
         (\<forall>a x. contains_loop (heap (foldl (\<lambda>dag c. push_vertex c dag) s suffix)) a x
                  = contains_loop (heap s) a x) \<and>
         (suffix \<noteq> [] \<longrightarrow>
            edges (heap (foldl (\<lambda>dag c. push_vertex c dag) s suffix)
                     (path_top (foldl (\<lambda>dag c. push_vertex c dag) s suffix))) = [])"
  using assms
proof (induction suffix arbitrary: s)
  case Nil
  then show ?case by simp
next
  case (Cons c cs)
  from Cons.prems have keys: "\<forall>k\<in>fst ` set (edges (heap s (path_top s))). k < c"
    by simp
  note P = core_inv_push [OF Cons.prems(1) keys]
  have "cs \<noteq> [] \<longrightarrow>
          (\<forall>k\<in>fst ` set (edges (heap (push_vertex c s) (path_top (push_vertex c s)))).
              k < hd cs)"
    unfolding P(3) by simp
  from Cons.IH [OF P(1) this] show ?case
    unfolding foldl_Cons
  proof (elim conjE, intro conjI impI)
    assume "\<forall>a x. contains_loop (heap (foldl (\<lambda>dag c. push_vertex c dag) (push_vertex c s) cs)) a x
                  = contains_loop (heap (push_vertex c s)) a x"
    then show "\<forall>a x. contains_loop (heap (foldl (\<lambda>dag c. push_vertex c dag) (push_vertex c s) cs)) a x
                  = contains_loop (heap s) a x"
      unfolding P(2) .
  next
    assume e: "cs \<noteq> [] \<longrightarrow>
                edges (heap (foldl (\<lambda>dag c. push_vertex c dag) (push_vertex c s) cs)
                  (path_top (foldl (\<lambda>dag c. push_vertex c dag) (push_vertex c s) cs))) = []"
    show "edges (heap (foldl (\<lambda>dag c. push_vertex c dag) (push_vertex c s) cs)
                  (path_top (foldl (\<lambda>dag c. push_vertex c dag) (push_vertex c s) cs))) = []"
    proof (cases cs)
      case Nil
      then show ?thesis unfolding Nil foldl_Nil by (simp only: P(3))
    next
      case (Cons c' cs')
      with e show ?thesis by simp
    qed
  qed
qed

section \<open>Marking the end of the word\<close>

lemma chain_lang_extend:
  assumes "chain h R r path"
    and "distinct (r # map vertex_ptr path)"
    and "\<forall>a\<in>set (r # map vertex_ptr path). a \<noteq> parent_of r path \<longrightarrow> h' a = h a"
    and "\<forall>t\<in>R. \<forall>x. contains_loop h' t x = contains_loop h t x"
    and "\<forall>x. contains_loop h' (parent_of r path) x
              \<longleftrightarrow> contains_loop h (parent_of r path) x \<or> x = suf"
  shows "\<forall>x. contains_loop h' r x
              \<longleftrightarrow> contains_loop h r x \<or> x = map edge_from_parent (rev path) @ suf"
  using assms
proof (induction path arbitrary: suf)
  case Nil
  then show ?case by (simp add: parent_of_def)
next
  case (Cons u rest)
  define q where "q = parent_of r rest"
  define l where "l = edge_from_parent u"
  have q_in: "q \<in> set (r # map vertex_ptr rest)"
    unfolding q_def by (rule parent_of_in)
  have pu: "parent_of r (u # rest) = vertex_ptr u"
    by (simp add: parent_of_def)
  have "q \<noteq> vertex_ptr u"
    using q_in Cons.prems(2) by auto
  then have hq: "h' q = h q"
    using Cons.prems(3) q_in unfolding pu by auto
  have edge: "map_find l (edges (h q)) = Some (vertex_ptr u)"
    and others: "\<And>k t. k \<noteq> l \<Longrightarrow> map_find k (edges (h q)) = Some t \<Longrightarrow> t \<in> R"
    using Cons.prems(1) by (auto simp: q_def l_def)
  have top: "\<And>x. contains_loop h' (vertex_ptr u) x
                \<longleftrightarrow> contains_loop h (vertex_ptr u) x \<or> x = suf"
    using Cons.prems(5) by (simp add: pu)
  have step: "\<forall>x. contains_loop h' q x \<longleftrightarrow> contains_loop h q x \<or> x = l # suf"
  proof
    fix x
    show "contains_loop h' q x \<longleftrightarrow> contains_loop h q x \<or> x = l # suf"
    proof (cases x)
      case Nil
      then show ?thesis by (simp add: hq)
    next
      case (Cons k x')
      show ?thesis
      proof (cases "k = l")
        case True
        with edge top [of x'] show ?thesis
          by (simp add: Cons hq)
      next
        case False
        show ?thesis
        proof (cases "map_find k (edges (h q))")
          case None
          with False show ?thesis by (simp add: Cons hq)
        next
          case (Some t)
          with others [OF False] have "t \<in> R" by simp
          with Cons.prems(4) have "contains_loop h' t x' = contains_loop h t x'" by simp
          with Some False show ?thesis by (simp add: Cons hq)
        qed
      qed
    qed
  qed
  have 1: "chain h R r rest"
    using Cons.prems(1) by simp
  have 2: "distinct (r # map vertex_ptr rest)"
    using Cons.prems(2) by simp
  have 3: "\<forall>a\<in>set (r # map vertex_ptr rest). a \<noteq> parent_of r rest \<longrightarrow> h' a = h a"
  proof (intro ballI impI)
    fix a assume a: "a \<in> set (r # map vertex_ptr rest)" "a \<noteq> parent_of r rest"
    then have "a \<noteq> vertex_ptr u"
      using Cons.prems(2) by auto
    with a Cons.prems(3) show "h' a = h a"
      unfolding pu by auto
  qed
  from Cons.IH [OF 1 2 3 Cons.prems(4), of "l # suf"] step
  show ?case
    by (simp add: q_def l_def)
qed

lemma core_inv_mark:
  assumes inv: "core_inv s"
  shows "core_inv (mark_top s)"
    and "\<And>x. contains_loop (heap (mark_top s)) (root_vertex s) x
               \<longleftrightarrow> contains_loop (heap s) (root_vertex s) x \<or> x = path_labels s"
    and "is_accepting (heap (mark_top s) (path_top s))"
    and "edges (heap (mark_top s) (path_top s)) = edges (heap s (path_top s))"
proof -
  define r where "r = root_vertex s"
  define P where "P = unminimized_path s"
  define p where "p = path_top s"
  define R where "R = set (minimized_vertices s)"
  define h where "h = heap s"
  define h' where "h' = h(p := mark_word_end (h p))"
  note C = core_invD [OF inv]
  note D = heap_invD [OF C(1)]
  have heap': "heap (mark_top s) = h'"
    by (simp add: mark_top_def h'_def h_def p_def)
  have ed: "\<And>a. edges (h' a) = edges (h a)"
    by (simp add: h'_def)
  have pp: "parent_of r P = p"
    by (simp add: p_def path_top_parent_of r_def P_def)
  have dist: "distinct (r # map vertex_ptr P @ minimized_vertices s)"
    using D(1) by (simp add: owned_def r_def P_def)
  have p_notR: "p \<notin> R"
    using path_top_not_registered [OF C(1)] by (simp add: p_def R_def)
  have closed: "\<forall>a\<in>R. targets (h a) \<subseteq> R"
  proof
    fix a assume "a \<in> R"
    then have "a \<notin> set (root_vertex s # map vertex_ptr (unminimized_path s))"
      using dist by (auto simp: R_def r_def P_def)
    from D(4) [OF this] show "targets (h a) \<subseteq> R"
      by (simp add: h_def R_def)
  qed
  have "\<forall>a\<in>R. h' a = h a"
    using p_notR by (auto simp: h'_def)
  with closed have Rlang: "\<forall>t\<in>R. \<forall>x. contains_loop h' t x = contains_loop h t x"
    using contains_loop_frame [of R h h'] by blast
  have top: "\<forall>x. contains_loop h' p x \<longleftrightarrow> contains_loop h p x \<or> x = []"
  proof
    fix x
    show "contains_loop h' p x \<longleftrightarrow> contains_loop h p x \<or> x = []"
    proof (cases x)
      case Nil
      then show ?thesis by (simp add: h'_def)
    next
      case (Cons k x')
      show ?thesis
      proof (cases "map_find k (edges (h p))")
        case None
        then show ?thesis by (simp add: Cons ed)
      next
        case (Some t)
        then have "t \<in> targets (h p)"
          by (rule map_find_target)
        with D(6) have "t \<in> R"
          by (auto simp: h_def p_def R_def)
        with Rlang have "contains_loop h' t x' = contains_loop h t x'" by simp
        with Some show ?thesis by (simp add: Cons ed)
      qed
    qed
  qed
  have ch: "chain h R r P"
    using D(5) by (simp add: h_def R_def r_def P_def)
  have d2: "distinct (r # map vertex_ptr P)"
    using dist by simp
  have oth: "\<forall>a\<in>set (r # map vertex_ptr P). a \<noteq> parent_of r P \<longrightarrow> h' a = h a"
    by (simp add: pp h'_def)
  have top': "\<forall>x. contains_loop h' (parent_of r P) x
              \<longleftrightarrow> contains_loop h (parent_of r P) x \<or> x = []"
    unfolding pp by (rule top)
  from chain_lang_extend [OF ch d2 oth Rlang top']
  show "\<And>x. contains_loop (heap (mark_top s)) (root_vertex s) x
               \<longleftrightarrow> contains_loop (heap s) (root_vertex s) x \<or> x = path_labels s"
    by (simp add: heap' h_def r_def P_def path_labels_def)
  show "is_accepting (heap (mark_top s) (path_top s))"
    by (simp add: heap' h'_def p_def)
  show "edges (heap (mark_top s) (path_top s)) = edges (heap s (path_top s))"
    by (simp add: heap' ed h_def)
  have "ordered h' r P = ordered h r P"
    by (rule ordered_cong) (simp add: ed)
  with C(2) have ord: "ordered h' r P"
    by (simp add: h_def r_def P_def)
  have trim: "\<forall>x\<in>R. \<exists>w. contains_loop h' x w"
    using C(3) Rlang by (simp add: R_def h_def)
  have reach: "\<forall>x\<in>R. \<exists>w. walk h' r w = Some x"
  proof
    fix x assume "x \<in> R"
    then obtain w where "walk h r w = Some x"
      using C(4) [of x] by (auto simp: R_def h_def r_def)
    then have "walk h' r w = Some x"
      by (rule walk_mono [rotated]) (simp add: ed)
    then show "\<exists>w. walk h' r w = Some x" ..
  qed
  have "heap_inv (mark_top s)"
    using C(1) by (rule heap_inv_mark)
  then show "core_inv (mark_top s)"
    unfolding core_inv_def heap' using ord trim reach
    by (simp add: R_def r_def P_def)
qed

lemma core_inv_prev: "core_inv (s\<lparr>prev_word := w\<rparr>) = core_inv s"
  by (simp add: core_inv_def heap_inv_prev)

section \<open>A run on an ascending input\<close>

lemma pushes_fields [simp]:
  "root_vertex (foldl (\<lambda>dag c. push_vertex c dag) s suffix) = root_vertex s"
  "prev_word (foldl (\<lambda>dag c. push_vertex c dag) s suffix) = prev_word s"
  "length (unminimized_path (foldl (\<lambda>dag c. push_vertex c dag) s suffix))
     = length (unminimized_path s) + length suffix"
  by (induction suffix arbitrary: s) simp_all

lemma minimize_until_fields [simp]:
  "root_vertex (minimize_until d s) = root_vertex s"
  "prev_word (minimize_until d s) = prev_word s"
proof -
  have "\<And>k. root_vertex ((minimize_step ^^ k) s) = root_vertex s"
    and "\<And>k. prev_word ((minimize_step ^^ k) s) = prev_word s"
    subgoal for k by (induction k) simp_all
    subgoal for k by (induction k) simp_all
    done
  then show "root_vertex (minimize_until d s) = root_vertex s"
    and "prev_word (minimize_until d s) = prev_word s"
    by (simp_all add: minimize_until_funpow)
qed

lemma root_insert [simp]: "root_vertex (insert_word w s) = root_vertex s"
  by (simp add: insert_word_def Let_def add_suffix_push)

lemma run_inv_insert:
  assumes inv: "run_inv s" and le: "prev_word s \<le> w"
  shows "run_inv (insert_word w s)"
    and "\<And>x. contains_loop (heap (insert_word w s)) (root_vertex s) x
               \<longleftrightarrow> contains_loop (heap s) (root_vertex s) x \<or> x = w"
proof -
  define d where "d = mismatch (prev_word s) w"
  define s1 where "s1 = minimize_until d s"
  define suffix where "suffix = drop d w"
  define s2 where "s2 = foldl (\<lambda>dag c. push_vertex c dag) s1 suffix"
  define s3 where "s3 = mark_top s2"
  have ins: "insert_word w s = s3\<lparr>prev_word := w\<rparr>"
    by (simp add: insert_word_def Let_def add_suffix_push s3_def s2_def s1_def suffix_def d_def)
  have minv: "min_inv s" and len: "length (unminimized_path s) = length (prev_word s)"
    using inv by (simp_all add: run_inv_def)
  have d_le: "d \<le> length (prev_word s)" "d \<le> length w"
    unfolding d_def by (rule mismatch_le)+
  have m1: "min_inv s1"
    and lang1: "\<And>a x. contains_loop (heap s1) a x = contains_loop (heap s) a x"
    using min_inv_until [OF minv, of d] by (simp_all add: s1_def)
  note M1 = min_invD [OF m1]
  have len1: "length (unminimized_path s1) = d"
    using d_le(1) len by (simp add: s1_def minimize_until_path)
  have prev1: "prev_word s1 = prev_word s"
    by (simp add: s1_def)
  have keys1: "suffix \<noteq> [] \<longrightarrow>
                 (\<forall>k\<in>fst ` set (edges (heap s1 (path_top s1))). k < hd suffix)"
  proof (intro impI ballI)
    fix k
    assume ne: "suffix \<noteq> []" and k: "k \<in> fst ` set (edges (heap s1 (path_top s1)))"
    from M1(4) [OF k] have dl: "d < length (prev_word s)" and kle: "k \<le> prev_word s ! d"
      by (simp_all add: len1 prev1)
    from mismatch_less [OF le] dl have "d < length w" and "prev_word s ! d < w ! d"
      by (simp_all add: d_def)
    moreover from this(1) have "hd suffix = w ! d"
      by (simp add: suffix_def hd_drop_conv_nth)
    ultimately show "k < hd suffix"
      using kle by simp
  qed
  have top1: "suffix = [] \<Longrightarrow> edges (heap s1 (path_top s1)) = []"
  proof (rule ccontr)
    assume e: "suffix = []" and ne: "edges (heap s1 (path_top s1)) \<noteq> []"
    then obtain k where k: "k \<in> fst ` set (edges (heap s1 (path_top s1)))"
      by (cases "edges (heap s1 (path_top s1))") auto
    from M1(4) [OF k] have dl: "d < length (prev_word s)"
      by (simp add: len1 prev1)
    from mismatch_less [OF le] dl have "d < length w"
      by (simp add: d_def)
    with e show False
      by (simp add: suffix_def)
  qed
  from core_inv_pushes [OF M1(1) keys1]
  have c2: "core_inv s2"
    and lang2: "\<And>a x. contains_loop (heap s2) a x = contains_loop (heap s1) a x"
    and top2: "suffix \<noteq> [] \<Longrightarrow> edges (heap s2 (path_top s2)) = []"
    by (simp_all add: s2_def)
  have root2: "root_vertex s2 = root_vertex s"
    by (simp add: s2_def s1_def)
  have labels2: "path_labels s2 = w"
  proof -
    have "path_labels s2 = take d (prev_word s) @ drop d w"
      using M1(2) by (simp add: s2_def path_labels_pushes len1 prev1 suffix_def)
    also have "take d (prev_word s) = take d w"
      unfolding d_def by (rule mismatch_take)
    finally show ?thesis by simp
  qed
  have len2: "length (unminimized_path s2) = length w"
    using path_labels_length [of s2] labels2 by simp
  note K = core_inv_mark [OF c2]
  have top3: "edges (heap s3 (path_top s3)) = []"
  proof (cases "suffix = []")
    case True
    then have "s2 = s1" by (simp add: s2_def)
    with top1 [OF True] K(4) show ?thesis
      by (simp add: s3_def)
  next
    case False
    with top2 K(4) show ?thesis by (simp add: s3_def)
  qed
  have "core_inv (insert_word w s)"
    unfolding ins core_inv_prev s3_def by (rule K(1))
  moreover have "path_labels (insert_word w s)
      = take (length (unminimized_path (insert_word w s))) (prev_word (insert_word w s))"
    using labels2 len2 by (simp add: ins s3_def path_labels_def)
  moreover have "length (unminimized_path (insert_word w s))
      \<le> length (prev_word (insert_word w s))"
    using len2 by (simp add: ins s3_def)
  moreover have "\<forall>k\<in>fst ` set (edges (heap (insert_word w s) (path_top (insert_word w s)))).
        length (unminimized_path (insert_word w s)) < length (prev_word (insert_word w s)) \<and>
        k \<le> prev_word (insert_word w s) ! length (unminimized_path (insert_word w s))"
    using top3 by (simp add: ins)
  moreover have "unminimized_path (insert_word w s) = [] \<or>
      (\<exists>x. contains_loop (heap (insert_word w s)) (path_top (insert_word w s)) x)"
  proof -
    have "contains_loop (heap (insert_word w s)) (path_top (insert_word w s)) []"
      using K(3) by (simp add: ins s3_def)
    then show ?thesis by blast
  qed
  ultimately have "min_inv (insert_word w s)"
    unfolding min_inv_def by (intro conjI)
  moreover have "length (unminimized_path (insert_word w s))
      = length (prev_word (insert_word w s))"
    using len2 by (simp add: ins s3_def)
  ultimately show "run_inv (insert_word w s)"
    by (simp add: run_inv_def)
  fix x
  have "contains_loop (heap (insert_word w s)) (root_vertex s) x
          \<longleftrightarrow> contains_loop (heap s2) (root_vertex s2) x \<or> x = path_labels s2"
    using K(2) [of x] by (simp add: ins s3_def root2)
  then show "contains_loop (heap (insert_word w s)) (root_vertex s) x
          \<longleftrightarrow> contains_loop (heap s) (root_vertex s) x \<or> x = w"
    by (simp add: lang2 lang1 root2 labels2)
qed

lemma run_inv_insert_all:
  "run_inv s \<Longrightarrow> sorted (prev_word s # ws) \<Longrightarrow>
   run_inv (insert_all ws s) \<and>
   (\<forall>x. contains_loop (heap (insert_all ws s)) (root_vertex s) x
          \<longleftrightarrow> contains_loop (heap s) (root_vertex s) x \<or> x \<in> set ws)"
proof (induction ws arbitrary: s)
  case Nil
  then show ?case by (simp add: insert_all_def)
next
  case (Cons w ws)
  from Cons.prems(2) have le: "prev_word s \<le> w" and srt: "sorted (w # ws)"
    by simp_all
  note I = run_inv_insert [OF Cons.prems(1) le]
  have "sorted (prev_word (insert_word w s) # ws)"
    using srt by simp
  from Cons.IH [OF I(1) this] I(2) show ?case
    by (auto simp: insert_all_def)
qed

lemma run_inv_empty: "run_inv empty_dagger"
proof -
  have "core_inv empty_dagger"
    using heap_inv_empty by (simp add: core_inv_def) (simp add: empty_dagger_def)
  then show ?thesis
    by (simp add: run_inv_def min_inv_def)
       (simp add: empty_dagger_def path_labels_def path_top_def)
qed

lemma insert_all_root [simp]: "root_vertex (insert_all ws s) = root_vertex s"
  by (induction ws arbitrary: s) (simp_all add: insert_all_def)

lemma strictly_ascending_sorted:
  fixes ws :: "string list"
  shows "sorted_wrt (<) ws \<Longrightarrow> sorted ([] # ws)"
  by (simp add: strict_sorted_imp_sorted)

lemma built_inv:
  assumes "sorted_wrt (<) ws"
  shows "min_inv (from_dictionary ws)"
    and "unminimized_path (from_dictionary ws) = []"
    and "\<And>x. contains_loop (heap (from_dictionary ws)) (root_vertex (from_dictionary ws)) x
               \<longleftrightarrow> x \<in> set ws"
proof -
  define s where "s = insert_all ws empty_dagger"
  have "sorted (prev_word empty_dagger # ws)"
    using strictly_ascending_sorted [OF assms] by (simp add: empty_dagger_def)
  from run_inv_insert_all [OF run_inv_empty this]
  have r: "run_inv s"
    and l: "\<And>x. contains_loop (heap s) (root_vertex empty_dagger) x \<longleftrightarrow> x \<in> set ws"
    by (simp_all add: s_def empty_dagger_def contains_loop_new)
  have fd: "from_dictionary ws = minimize_until 0 s"
    by (simp add: from_dictionary_def finish_minimization_def s_def)
  from r have "min_inv s" by (simp add: run_inv_def)
  from min_inv_until [OF this, of 0]
  show "min_inv (from_dictionary ws)"
    and "\<And>x. contains_loop (heap (from_dictionary ws)) (root_vertex (from_dictionary ws)) x
               \<longleftrightarrow> x \<in> set ws"
    using l by (simp_all add: fd s_def)
  show "unminimized_path (from_dictionary ws) = []"
    by (simp add: fd minimize_until_path)
qed

lemma from_dictionary_language:
  "sorted_wrt (<) ws \<Longrightarrow> fst (contains x (from_dictionary ws)) \<longleftrightarrow> x \<in> set ws"
  by (simp add: contains_def built_inv(3))

section \<open>Minimality\<close>

lemma lang_Nil: "[] \<in> lang h a \<longleftrightarrow> is_accepting (h a)"
  by (simp add: lang_def)

lemma lang_step_Some:
  "map_find k (edges (h a)) = Some t \<Longrightarrow> lang h t = residual (lang h a) [k]"
  by (simp add: lang_def residual_def)

lemma lang_step_None:
  "map_find k (edges (h a)) = None \<Longrightarrow> residual (lang h a) [k] = {}"
  by (simp add: lang_def residual_def)

lemma walk_residual: "walk h a u = Some b \<Longrightarrow> lang h b = residual (lang h a) u"
  by (simp add: lang_def residual_def contains_loop_append)

lemma residual_walk: "residual (lang h a) u \<noteq> {} \<Longrightarrow> \<exists>b. walk h a u = Some b"
  by (auto simp: lang_def residual_def contains_loop_append split: option.splits)

lemma walk_closed:
  assumes "\<forall>a\<in>V. targets (h a) \<subseteq> V"
  shows "a \<in> V \<Longrightarrow> walk h a u = Some b \<Longrightarrow> b \<in> V"
proof (induction u arbitrary: a)
  case Nil
  then show ?case by simp
next
  case (Cons k u)
  then obtain t where t: "map_find k (edges (h a)) = Some t" and w: "walk h t u = Some b"
    by (auto split: option.splits)
  from t have "t \<in> targets (h a)"
    by (rule map_find_target)
  with assms Cons.prems(1) have "t \<in> V" by blast
  from Cons.IH [OF this w] show ?case .
qed

lemma states_covered:
  assumes closed: "\<forall>a\<in>V. targets (h a) \<subseteq> V" and q: "q \<in> V"
  shows "minimal_dfa_states (lang h q) \<subseteq> lang h ` V"
proof
  fix M assume "M \<in> minimal_dfa_states (lang h q)"
  then consider "M = lang h q" | u where "M = residual (lang h q) u" "residual (lang h q) u \<noteq> {}"
    by (auto simp: minimal_dfa_states_def)
  then show "M \<in> lang h ` V"
  proof cases
    case 1
    with q show ?thesis by simp
  next
    case 2
    from residual_walk [OF 2(2)] obtain b where b: "walk h q u = Some b" ..
    from walk_closed [OF closed q b] have "b \<in> V" .
    moreover from walk_residual [OF b] 2(1) have "M = lang h b" by simp
    ultimately show ?thesis by blast
  qed
qed

lemma minimal_dfa_states_lower_bound:
  assumes "finite V" and "\<forall>a\<in>V. targets (h a) \<subseteq> V" and "q \<in> V"
  shows "card (minimal_dfa_states (lang h q)) \<le> card V"
proof -
  have "card (minimal_dfa_states (lang h q)) \<le> card (lang h ` V)"
    using states_covered [OF assms(2,3)] assms(1) by (intro card_mono) simp_all
  also have "\<dots> \<le> card V"
    using assms(1) by (rule card_image_le)
  finally show ?thesis .
qed

lemma lang_injective:
  assumes closed: "\<forall>a\<in>R. targets (h a) \<subseteq> R"
    and trim: "\<forall>a\<in>R. lang h a \<noteq> {}"
    and sorted: "\<forall>a. keys_sorted (edges (h a))"
    and unique: "\<forall>x\<in>R. \<forall>y\<in>R. h x = h y \<longrightarrow> x = y"
  shows "x \<in> R \<Longrightarrow> y \<in> R \<Longrightarrow> \<forall>w\<in>lang h x. length w < n \<Longrightarrow> lang h x = lang h y \<Longrightarrow> x = y"
proof (induction n arbitrary: x y)
  case 0
  with trim show ?case by fastforce
next
  case (Suc n)
  have acc: "is_accepting (h x) = is_accepting (h y)"
    using Suc.prems(4) lang_Nil [of h x] lang_Nil [of h y] by simp
  have half: "map_find k (edges (h b)) = Some t'"
    if ab: "a \<in> R" "b \<in> R" and eq: "lang h a = lang h b"
      and bound: "\<forall>w\<in>lang h a. length w < Suc n"
      and t: "map_find k (edges (h a)) = Some t"
      and IH: "\<And>t'. t' \<in> R \<Longrightarrow> lang h t = lang h t' \<Longrightarrow> t = t'"
      and t': "t' = t"
    for a b k t t'
  proof -
    have tR: "t \<in> R"
      using closed ab(1) map_find_target [OF t] by blast
    have lt: "lang h t = residual (lang h b) [k]"
      using lang_step_Some [where h = h, OF t] eq by simp
    with trim tR have ne: "residual (lang h b) [k] \<noteq> {}" by auto
    then obtain t2 where t2: "map_find k (edges (h b)) = Some t2"
      using lang_step_None [where h = h and a = b and k = k] by (cases "map_find k (edges (h b))") auto
    have t2R: "t2 \<in> R"
      using closed ab(2) map_find_target [OF t2] by blast
    have "lang h t = lang h t2"
      using lt lang_step_Some [where h = h, OF t2] by simp
    from IH [OF t2R this] t2 t' show ?thesis by simp
  qed
  have edges_eq: "map_find k (edges (h x)) = map_find k (edges (h y))" for k
  proof (cases "map_find k (edges (h x))")
    case (Some t)
    have tR: "t \<in> R"
      using closed Suc.prems(1) map_find_target [OF Some] by blast
    have b: "\<forall>w\<in>lang h t. length w < n"
    proof
      fix w assume "w \<in> lang h t"
      then have "k # w \<in> lang h x"
        using lang_step_Some [where h = h, OF Some] by (simp add: residual_def)
      with Suc.prems(3) show "length w < n" by fastforce
    qed
    have "map_find k (edges (h y)) = Some t"
      using Suc.prems(1,2,4,3) Some
    proof (rule half)
      fix t' assume "t' \<in> R" "lang h t = lang h t'"
      with Suc.IH [OF tR _ b] show "t = t'" by blast
    qed simp
    with Some show ?thesis by simp
  next
    case None
    show ?thesis
    proof (cases "map_find k (edges (h y))")
      case (Some t)
      have tR: "t \<in> R"
        using closed Suc.prems(2) map_find_target [OF Some] by blast
      have b: "\<forall>w\<in>lang h t. length w < n"
      proof
        fix w assume "w \<in> lang h t"
        then have "k # w \<in> lang h y"
          using lang_step_Some [where h = h, OF Some] by (simp add: residual_def)
        with Suc.prems(3,4) show "length w < n" by fastforce
      qed
      have by': "\<forall>w\<in>lang h y. length w < Suc n"
        using Suc.prems(3,4) by simp
      have "map_find k (edges (h x)) = Some t"
        using Suc.prems(2,1) Suc.prems(4) [symmetric] by' Some
      proof (rule half)
        fix t' assume "t' \<in> R" "lang h t = lang h t'"
        with Suc.IH [OF tR _ b] show "t = t'" by blast
      qed simp
      with None show ?thesis by simp
    qed (simp add: None)
  qed
  have "edges (h x) = edges (h y)"
    using sorted edges_eq by (intro keys_sorted_unique) auto
  with acc have "h x = h y" by simp
  with unique Suc.prems(1,2) show ?case by blast
qed

lemma residual_longer:
  assumes "finite L" and "L \<noteq> {}" and "u \<noteq> []"
  shows "residual L u \<noteq> L"
proof
  assume eq: "residual L u = L"
  define m where "m = Max (length ` L)"
  have "m \<in> length ` L"
    unfolding m_def using assms(1,2) by (intro Max_in) auto
  then obtain w where w: "w \<in> L" "length w = m" by auto
  with eq have "u @ w \<in> L"
    by (auto simp: residual_def)
  then have "length (u @ w) \<in> length ` L"
    by (rule imageI)
  then have "length (u @ w) \<le> m"
    unfolding m_def using assms(1) by (intro Max_ge) simp_all
  with w(2) assms(3) show False by simp
qed

lemma built_vertices:
  assumes "sorted_wrt (<) ws"
  defines "s \<equiv> from_dictionary ws"
  shows "distinct (root_vertex s # minimized_vertices s)"
    and "inj_on (lang (heap s)) (vertices s)"
    and "lang (heap s) ` vertices s = minimal_dfa_states (set ws)"
proof -
  define h where "h = heap s"
  define r where "r = root_vertex s"
  define R where "R = set (minimized_vertices s)"
  note B = built_inv [OF assms(1), folded s_def]
  note M = min_invD [OF B(1)]
  note C = core_invD [OF M(1)]
  note D = heap_invD [OF C(1)]
  have top: "path_top s = r"
    by (simp add: path_top_def B(2) r_def)
  show dist: "distinct (root_vertex s # minimized_vertices s)"
    using D(1) by (simp add: owned_def B(2))
  have L: "lang h r = set ws"
    using B(3) by (auto simp: lang_def h_def r_def)
  have closedR: "\<forall>a\<in>R. targets (h a) \<subseteq> R"
  proof
    fix a assume "a \<in> R"
    then have "a \<notin> set (root_vertex s # map vertex_ptr (unminimized_path s))"
      using dist by (auto simp: R_def B(2))
    from D(4) [OF this] show "targets (h a) \<subseteq> R"
      by (simp add: h_def R_def)
  qed
  have rootR: "targets (h r) \<subseteq> R"
    using D(6) by (simp add: top h_def R_def)
  have closedV: "\<forall>a\<in>insert r R. targets (h a) \<subseteq> insert r R"
    using closedR rootR by auto
  have trim: "\<forall>a\<in>R. lang h a \<noteq> {}"
    using C(3) by (auto simp: lang_def R_def h_def)
  have sorted: "\<forall>a. keys_sorted (edges (h a))"
    using D(7) by (simp add: h_def)
  have unique: "\<forall>x\<in>R. \<forall>y\<in>R. h x = h y \<longrightarrow> x = y"
    using D(8) by (auto simp: R_def h_def)
  have res: "\<exists>u. u \<noteq> [] \<and> lang h x = residual (set ws) u" if "x \<in> R" for x
  proof -
    from C(4) [of x] that obtain u where u: "walk h r u = Some x"
      by (auto simp: R_def h_def r_def)
    have "u \<noteq> []"
    proof
      assume "u = []"
      with u have "x = r" by simp
      with that dist show False by (simp add: R_def r_def)
    qed
    with walk_residual [OF u] L show ?thesis by auto
  qed
  obtain n where n: "\<forall>w\<in>set ws. length w < n"
  proof
    show "\<forall>w\<in>set ws. length w < Suc (Max (length ` set ws))"
      by (simp add: less_Suc_eq_le)
  qed
  have bound: "\<forall>w\<in>lang h x. length w < n" if "x \<in> R" for x
  proof
    fix w assume w: "w \<in> lang h x"
    from res [OF that] obtain u where "lang h x = residual (set ws) u" by blast
    with w have "u @ w \<in> set ws" by (simp add: residual_def)
    with n have "length (u @ w) < n" by blast
    then show "length w < n" by simp
  qed
  have injR: "x = y" if "x \<in> R" "y \<in> R" "lang h x = lang h y" for x y
    using closedR trim sorted unique that(1,2) bound [OF that(1)] that(3)
    by (rule lang_injective)
  have rootne: "lang h x \<noteq> lang h r" if "x \<in> R" for x
  proof -
    from res [OF that] obtain u where u: "u \<noteq> []" "lang h x = residual (set ws) u" by blast
    from trim that have "lang h x \<noteq> {}" by blast
    with u(2) have "set ws \<noteq> {}" by (auto simp: residual_def)
    from residual_longer [OF _ this u(1)] u(2) L show ?thesis by simp
  qed
  show "inj_on (lang (heap s)) (vertices s)"
    unfolding vertices_def h_def [symmetric] r_def [symmetric] R_def [symmetric]
    using injR rootne by (auto simp: inj_on_def)
  have "lang h ` insert r R = minimal_dfa_states (set ws)"
  proof
    show "lang h ` insert r R \<subseteq> minimal_dfa_states (set ws)"
    proof
      fix M assume "M \<in> lang h ` insert r R"
      then consider "M = lang h r" | x where "x \<in> R" "M = lang h x" by auto
      then show "M \<in> minimal_dfa_states (set ws)"
      proof cases
        case 1
        with L show ?thesis by (simp add: minimal_dfa_states_def)
      next
        case 2
        from res [OF 2(1)] trim 2 show ?thesis
          by (auto simp: minimal_dfa_states_def)
      qed
    qed
    show "minimal_dfa_states (set ws) \<subseteq> lang h ` insert r R"
      using states_covered [OF closedV, of r] L by simp
  qed
  then show "lang (heap s) ` vertices s = minimal_dfa_states (set ws)"
    by (simp add: vertices_def h_def r_def R_def)
qed

section \<open>A discarded vertex is not referred to\<close>

lemma targets_owned:
  assumes inv: "heap_inv s" and edge: "map_find k (edges (heap s a)) = Some t"
  shows "t \<in> set (owned s)"
proof -
  note D = heap_invD [OF inv]
  have tg: "t \<in> targets (heap s a)"
    using edge by (rule map_find_target)
  show ?thesis
  proof (cases "a \<in> set (root_vertex s # map vertex_ptr (unminimized_path s))")
    case False
    from D(4) [OF False] tg show ?thesis
      by (auto simp: owned_def)
  next
    case True
    show ?thesis
    proof (cases "a = path_top s")
      case True
      with D(6) tg show ?thesis
        by (auto simp: owned_def)
    next
      case False
      then have "a \<noteq> parent_of (root_vertex s) (unminimized_path s)"
        by (simp add: path_top_parent_of)
      from chain_edge_cases [OF D(5) True this edge] show ?thesis
        by (auto simp: owned_def)
    qed
  qed
qed

lemma discarded_unreferenced:
  assumes inv: "heap_inv s" and path: "unminimized_path s = u # rest"
    and found: "registry_find (heap s) (minimized_vertices s) (vertex_ptr u) = Some c"
  shows "map_find k (edges (heap (minimize_step s) a)) \<noteq> Some (vertex_ptr u)"
proof
  assume "map_find k (edges (heap (minimize_step s) a)) = Some (vertex_ptr u)"
  with heap_inv_step [OF inv] have "vertex_ptr u \<in> set (owned (minimize_step s))"
    by (rule targets_owned)
  moreover have "owned (minimize_step s)
                   = root_vertex s # map vertex_ptr rest @ minimized_vertices s"
    by (simp add: minimize_step_found [OF path found] owned_def)
  moreover have "distinct (root_vertex s # vertex_ptr u # map vertex_ptr rest
                             @ minimized_vertices s)"
    using heap_invD(1) [OF inv] by (simp add: owned_def path)
  ultimately show False by auto
qed

section \<open>What an iteration of \<open>minimize_until\<close> does\<close>

lemma registry_find_equivalent:
  assumes "\<exists>c\<in>set reg. equivalent h c p"
  shows "\<exists>c\<in>set reg. equivalent h c p \<and> registry_find h reg p = Some c"
proof (cases "registry_find h reg p")
  case None
  with assms show ?thesis
    by (auto simp: registry_find_None equivalent_iff)
next
  case (Some c)
  from registry_find_Some [OF Some] Some show ?thesis
    by (auto simp: equivalent_iff)
qed

lemma minimize_step_found_observed:
  assumes path: "unminimized_path s = u # rest"
    and found: "registry_find (heap s) (minimized_vertices s) (vertex_ptr u) = Some c"
  defines "p \<equiv> parent_of (root_vertex s) rest"
  shows "map_find (edge_from_parent u) (edges (heap (minimize_step s) p)) = Some c"
    and "\<forall>k. k \<noteq> edge_from_parent u \<longrightarrow>
           map_find k (edges (heap (minimize_step s) p)) = map_find k (edges (heap s p))"
    and "is_accepting (heap (minimize_step s) p) = is_accepting (heap s p)"
    and "\<forall>a. a \<noteq> p \<longrightarrow> heap (minimize_step s) a = heap s a"
    and "minimized_vertices (minimize_step s) = minimized_vertices s"
  unfolding p_def minimize_step_found [OF path found]
  by (simp_all add: map_find_assign)

lemma minimize_step_found_discards:
  assumes inv: "heap_inv s" and path: "unminimized_path s = u # rest"
    and found: "registry_find (heap s) (minimized_vertices s) (vertex_ptr u) = Some c"
  shows "vertex_ptr u \<notin> set (minimized_vertices (minimize_step s))"
    and "vertex_ptr u \<notin> vertex_ptr ` set (unminimized_path (minimize_step s))"
    and "\<forall>a k. map_find k (edges (heap (minimize_step s) a)) \<noteq> Some (vertex_ptr u)"
proof -
  have "distinct (root_vertex s # vertex_ptr u # map vertex_ptr rest @ minimized_vertices s)"
    using heap_invD(1) [OF inv] by (simp add: owned_def path)
  then show "vertex_ptr u \<notin> set (minimized_vertices (minimize_step s))"
    and "vertex_ptr u \<notin> vertex_ptr ` set (unminimized_path (minimize_step s))"
    by (auto simp: minimize_step_found [OF path found])
  show "\<forall>a k. map_find k (edges (heap (minimize_step s) a)) \<noteq> Some (vertex_ptr u)"
    using discarded_unreferenced [OF inv path found] by blast
qed

section \<open>The properties of the specification\<close>

text \<open>
  C1. When the words of the input come in strictly ascending order (the order of
  \<^typ>\<open>string\<close> is the lexicographic order of the bytes), the automaton that
  \<^verbatim>\<open>from_dictionary\<close> builds answers \<^verbatim>\<open>true\<close> to \<^verbatim>\<open>contains(w)\<close> for every word \<open>w\<close> of
  the input.
\<close>

theorem every_word_accepted:
  assumes "sorted_wrt (<) ws" and "w \<in> set ws"
  shows "fst (contains w (from_dictionary ws)) = True"
  using assms by (simp add: from_dictionary_language)

theorem every_word_accepted_witness:
  "sorted_wrt (<) [''abaca'', ''abacas'', ''abacost'', ''abacosts'', ''abacule'', ''abacules'',
                   ''abaissa'', ''abaissable'', ''balader''] \<and>
   ''abacost'' \<in> set [''abaca'', ''abacas'', ''abacost'', ''abacosts'', ''abacule'', ''abacules'',
                   ''abaissa'', ''abaissable'', ''balader''] \<and>
   fst (contains ''abacost''
          (from_dictionary [''abaca'', ''abacas'', ''abacost'', ''abacosts'', ''abacule'',
                            ''abacules'', ''abaissa'', ''abaissable'', ''balader''])) = True"
proof -
  have h: "sorted_wrt (<) [''abaca'', ''abacas'', ''abacost'', ''abacosts'', ''abacule'',
                           ''abacules'', ''abaissa'', ''abaissable'', ''balader'']"
    by simp
  have m: "''abacost'' \<in> set [''abaca'', ''abacas'', ''abacost'', ''abacosts'', ''abacule'',
                           ''abacules'', ''abaissa'', ''abaissable'', ''balader'']"
    by simp
  from h m every_word_accepted [OF h m] show ?thesis
    by (intro conjI)
qed

text \<open>
  C2. When the words of the input come in strictly ascending order, the automaton that
  \<^verbatim>\<open>from_dictionary\<close> builds answers \<^verbatim>\<open>false\<close> to \<^verbatim>\<open>contains(s)\<close> for every string \<open>s\<close>
  that is not a word of the input: it accepts the input language and nothing more.
\<close>

theorem no_other_string_accepted:
  assumes "sorted_wrt (<) ws" and "s \<notin> set ws"
  shows "fst (contains s (from_dictionary ws)) = False"
  using assms by (simp add: from_dictionary_language)

theorem no_other_string_accepted_witness:
  "sorted_wrt (<) [''abaca'', ''abacas'', ''abacost'', ''abacosts'', ''abacule'', ''abacules'',
                   ''abaissa'', ''abaissable'', ''balader''] \<and>
   ''balade'' \<notin> set [''abaca'', ''abacas'', ''abacost'', ''abacosts'', ''abacule'', ''abacules'',
                   ''abaissa'', ''abaissable'', ''balader''] \<and>
   fst (contains ''balade''
          (from_dictionary [''abaca'', ''abacas'', ''abacost'', ''abacosts'', ''abacule'',
                            ''abacules'', ''abaissa'', ''abaissable'', ''balader''])) = False"
proof -
  have h: "sorted_wrt (<) [''abaca'', ''abacas'', ''abacost'', ''abacosts'', ''abacule'',
                           ''abacules'', ''abaissa'', ''abaissable'', ''balader'']"
    by simp
  have m: "''balade'' \<notin> set [''abaca'', ''abacas'', ''abacost'', ''abacosts'', ''abacule'',
                           ''abacules'', ''abaissa'', ''abaissable'', ''balader'']"
    by simp
  from h m no_other_string_accepted [OF h m] show ?thesis
    by (intro conjI)
qed

text \<open>
  C3. When the words of the input come in strictly ascending order, the vertices of the
  automaton that \<^verbatim>\<open>from_dictionary\<close> builds (the root and the vertices of the registry, all
  distinct) are as many as the states of the minimal deterministic automaton of the input
  language, counted as \<open>minimal_dfa_states\<close> does: one state for each non-empty residual of
  the language, and the initial state. No automaton of this kind that accepts the same
  language (a finite set of vertices closed under the transitions, with a start vertex) has
  fewer vertices.
\<close>

theorem built_automaton_minimal:
  assumes "sorted_wrt (<) ws"
  shows "distinct (root_vertex (from_dictionary ws) # minimized_vertices (from_dictionary ws)) \<and>
         card (vertices (from_dictionary ws))
           = length (minimized_vertices (from_dictionary ws)) + 1 \<and>
         card (vertices (from_dictionary ws)) = card (minimal_dfa_states (set ws)) \<and>
         (\<forall>h V q. finite V \<longrightarrow> q \<in> V \<longrightarrow> (\<forall>a\<in>V. targets (h a) \<subseteq> V) \<longrightarrow>
                  lang h q = set ws \<longrightarrow>
                  card (vertices (from_dictionary ws)) \<le> card V)"
proof -
  define s where "s = from_dictionary ws"
  note V = built_vertices [OF assms, folded s_def]
  have 1: "card (vertices s) = length (minimized_vertices s) + 1"
    using V(1) by (simp add: vertices_def distinct_card)
  have "card (lang (heap s) ` vertices s) = card (vertices s)"
    using V(2) by (rule card_image)
  then have 2: "card (vertices s) = card (minimal_dfa_states (set ws))"
    unfolding V(3) by simp
  have 3: "card (vertices s) \<le> card V"
    if "finite V" "q \<in> V" "\<forall>a\<in>V. targets (h a) \<subseteq> V" "lang h q = set ws" for h V q
    using minimal_dfa_states_lower_bound [OF that(1,3,2)] that(4) 2 by simp
  from V(1) 1 2 3 show ?thesis
    unfolding s_def by blast
qed

theorem built_automaton_minimal_witness:
  "sorted_wrt (<) [''a'', ''ab'', ''b''] \<and>
   card (vertices (from_dictionary [''a'', ''ab'', ''b''])) = 3 \<and>
   card (minimal_dfa_states (set [''a'', ''ab'', ''b''])) = 3"
proof -
  have h: "sorted_wrt (<) [''a'', ''ab'', ''b'']"
    by simp
  have "length (minimized_vertices (from_dictionary [''a'', ''ab'', ''b''])) = 2"
    by code_simp
  with h built_automaton_minimal [OF h] show ?thesis
    by simp
qed

text \<open>
  C4. \<^verbatim>\<open>minimize_until(d)\<close> removes entries from the top of the unminimized path until at
  most \<open>d\<close> remain, one iteration of its loop for each, the deepest first. An iteration
  takes the top entry \<open>(v, label)\<close> off the path and changes neither the root, the previous
  word nor the allocator. If the registry holds a vertex equivalent to \<open>v\<close>, the search finds
  such a vertex \<open>c\<close>, and afterwards the new parent (the vertex of the entry now on top, or
  the root when the path is empty) reaches \<open>c\<close> by \<open>label\<close>; its other transitions, its
  accepting flag, every other vertex and the registry are as before, and \<open>v\<close> is discarded:
  in a state of the construction it is owned by neither the registry nor the path and no
  edge leads to it. If the registry holds no vertex equivalent to \<open>v\<close>, then \<open>v\<close> is added
  to the registry and no vertex changes. \<^verbatim>\<open>finish_minimization\<close> is \<^verbatim>\<open>minimize_until(0)\<close>
  and leaves the path empty.
\<close>

theorem minimize_until_resolves_path:
  "unminimized_path (minimize_until d s)
     = drop (length (unminimized_path s) - d) (unminimized_path s) \<and>
   length (unminimized_path (minimize_until d s)) = min d (length (unminimized_path s)) \<and>
   minimize_until d s = (minimize_step ^^ (length (unminimized_path s) - d)) s \<and>
   (\<forall>u rest.
      unminimized_path s = u # rest \<longrightarrow>
        unminimized_path (minimize_step s) = rest \<and>
        root_vertex (minimize_step s) = root_vertex s \<and>
        prev_word (minimize_step s) = prev_word s \<and>
        next_free (minimize_step s) = next_free s \<and>
        ((\<exists>c\<in>set (minimized_vertices s). equivalent (heap s) c (vertex_ptr u)) \<longrightarrow>
           (\<exists>c\<in>set (minimized_vertices s).
              equivalent (heap s) c (vertex_ptr u) \<and>
              registry_find (heap s) (minimized_vertices s) (vertex_ptr u) = Some c \<and>
              map_find (edge_from_parent u)
                (edges (heap (minimize_step s) (parent_of (root_vertex s) rest))) = Some c \<and>
              (\<forall>k. k \<noteq> edge_from_parent u \<longrightarrow>
                 map_find k (edges (heap (minimize_step s) (parent_of (root_vertex s) rest)))
                   = map_find k (edges (heap s (parent_of (root_vertex s) rest)))) \<and>
              is_accepting (heap (minimize_step s) (parent_of (root_vertex s) rest))
                = is_accepting (heap s (parent_of (root_vertex s) rest)) \<and>
              (\<forall>a. a \<noteq> parent_of (root_vertex s) rest \<longrightarrow>
                 heap (minimize_step s) a = heap s a) \<and>
              minimized_vertices (minimize_step s) = minimized_vertices s \<and>
              (heap_inv s \<longrightarrow>
                 vertex_ptr u \<notin> set (minimized_vertices (minimize_step s)) \<and>
                 vertex_ptr u \<notin> vertex_ptr ` set (unminimized_path (minimize_step s)) \<and>
                 (\<forall>a k. map_find k (edges (heap (minimize_step s) a))
                    \<noteq> Some (vertex_ptr u))))) \<and>
        ((\<forall>c\<in>set (minimized_vertices s). \<not> equivalent (heap s) c (vertex_ptr u)) \<longrightarrow>
           registry_find (heap s) (minimized_vertices s) (vertex_ptr u) = None \<and>
           minimized_vertices (minimize_step s) = minimized_vertices s @ [vertex_ptr u] \<and>
           heap (minimize_step s) = heap s)) \<and>
   finish_minimization s = minimize_until 0 s \<and>
   unminimized_path (finish_minimization s) = []"
proof -
  have 1: "unminimized_path (minimize_until d s)
     = drop (length (unminimized_path s) - d) (unminimized_path s)"
    by (rule minimize_until_path)
  have 2: "length (unminimized_path (minimize_until d s)) = min d (length (unminimized_path s))"
    by (simp add: minimize_until_path min_def)
  have 3: "minimize_until d s = (minimize_step ^^ (length (unminimized_path s) - d)) s"
    by (rule minimize_until_funpow)
  have 5: "finish_minimization s = minimize_until 0 s"
    by (simp add: finish_minimization_def)
  have 6: "unminimized_path (finish_minimization s) = []"
    by (simp add: finish_minimization_def minimize_until_path)
  have 4: "unminimized_path (minimize_step s) = rest \<and>
        root_vertex (minimize_step s) = root_vertex s \<and>
        prev_word (minimize_step s) = prev_word s \<and>
        next_free (minimize_step s) = next_free s \<and>
        ((\<exists>c\<in>set (minimized_vertices s). equivalent (heap s) c (vertex_ptr u)) \<longrightarrow>
           (\<exists>c\<in>set (minimized_vertices s).
              equivalent (heap s) c (vertex_ptr u) \<and>
              registry_find (heap s) (minimized_vertices s) (vertex_ptr u) = Some c \<and>
              map_find (edge_from_parent u)
                (edges (heap (minimize_step s) (parent_of (root_vertex s) rest))) = Some c \<and>
              (\<forall>k. k \<noteq> edge_from_parent u \<longrightarrow>
                 map_find k (edges (heap (minimize_step s) (parent_of (root_vertex s) rest)))
                   = map_find k (edges (heap s (parent_of (root_vertex s) rest)))) \<and>
              is_accepting (heap (minimize_step s) (parent_of (root_vertex s) rest))
                = is_accepting (heap s (parent_of (root_vertex s) rest)) \<and>
              (\<forall>a. a \<noteq> parent_of (root_vertex s) rest \<longrightarrow>
                 heap (minimize_step s) a = heap s a) \<and>
              minimized_vertices (minimize_step s) = minimized_vertices s \<and>
              (heap_inv s \<longrightarrow>
                 vertex_ptr u \<notin> set (minimized_vertices (minimize_step s)) \<and>
                 vertex_ptr u \<notin> vertex_ptr ` set (unminimized_path (minimize_step s)) \<and>
                 (\<forall>a k. map_find k (edges (heap (minimize_step s) a))
                    \<noteq> Some (vertex_ptr u))))) \<and>
        ((\<forall>c\<in>set (minimized_vertices s). \<not> equivalent (heap s) c (vertex_ptr u)) \<longrightarrow>
           registry_find (heap s) (minimized_vertices s) (vertex_ptr u) = None \<and>
           minimized_vertices (minimize_step s) = minimized_vertices s @ [vertex_ptr u] \<and>
           heap (minimize_step s) = heap s)"
    if path: "unminimized_path s = u # rest" for u rest
  proof (intro conjI impI)
    show "unminimized_path (minimize_step s) = rest"
      by (simp add: minimize_step_path path)
    show "root_vertex (minimize_step s) = root_vertex s"
      "prev_word (minimize_step s) = prev_word s"
      "next_free (minimize_step s) = next_free s"
      by simp_all
  next
    assume "\<exists>c\<in>set (minimized_vertices s). equivalent (heap s) c (vertex_ptr u)"
    from registry_find_equivalent [OF this]
    obtain c where c: "c \<in> set (minimized_vertices s)" "equivalent (heap s) c (vertex_ptr u)"
      and f: "registry_find (heap s) (minimized_vertices s) (vertex_ptr u) = Some c"
      by blast
    note O = minimize_step_found_observed [OF path f]
    have "heap_inv s \<longrightarrow>
                 vertex_ptr u \<notin> set (minimized_vertices (minimize_step s)) \<and>
                 vertex_ptr u \<notin> vertex_ptr ` set (unminimized_path (minimize_step s)) \<and>
                 (\<forall>a k. map_find k (edges (heap (minimize_step s) a))
                    \<noteq> Some (vertex_ptr u))"
      using minimize_step_found_discards [OF _ path f] by simp
    with c f O show "\<exists>c\<in>set (minimized_vertices s).
              equivalent (heap s) c (vertex_ptr u) \<and>
              registry_find (heap s) (minimized_vertices s) (vertex_ptr u) = Some c \<and>
              map_find (edge_from_parent u)
                (edges (heap (minimize_step s) (parent_of (root_vertex s) rest))) = Some c \<and>
              (\<forall>k. k \<noteq> edge_from_parent u \<longrightarrow>
                 map_find k (edges (heap (minimize_step s) (parent_of (root_vertex s) rest)))
                   = map_find k (edges (heap s (parent_of (root_vertex s) rest)))) \<and>
              is_accepting (heap (minimize_step s) (parent_of (root_vertex s) rest))
                = is_accepting (heap s (parent_of (root_vertex s) rest)) \<and>
              (\<forall>a. a \<noteq> parent_of (root_vertex s) rest \<longrightarrow>
                 heap (minimize_step s) a = heap s a) \<and>
              minimized_vertices (minimize_step s) = minimized_vertices s \<and>
              (heap_inv s \<longrightarrow>
                 vertex_ptr u \<notin> set (minimized_vertices (minimize_step s)) \<and>
                 vertex_ptr u \<notin> vertex_ptr ` set (unminimized_path (minimize_step s)) \<and>
                 (\<forall>a k. map_find k (edges (heap (minimize_step s) a))
                    \<noteq> Some (vertex_ptr u)))"
      by (intro bexI [of _ c] conjI)
  next
    assume "\<forall>c\<in>set (minimized_vertices s). \<not> equivalent (heap s) c (vertex_ptr u)"
    then have n: "registry_find (heap s) (minimized_vertices s) (vertex_ptr u) = None"
      by (simp add: registry_find_None equivalent_iff)
    then show "registry_find (heap s) (minimized_vertices s) (vertex_ptr u) = None" .
    show "minimized_vertices (minimize_step s) = minimized_vertices s @ [vertex_ptr u]"
      "heap (minimize_step s) = heap s"
      by (simp_all add: minimize_step_new [OF path n])
  qed
  from 1 2 3 5 6 show ?thesis
    by (intro conjI allI impI 4)
qed

theorem minimize_until_resolves_path_witness:
  "unminimized_path (insert_all [''ax'', ''bx''] empty_dagger)
     = [\<lparr>vertex_ptr = 4, edge_from_parent = CHR ''x''\<rparr>,
        \<lparr>vertex_ptr = 3, edge_from_parent = CHR ''b''\<rparr>] \<and>
   2 \<in> set (minimized_vertices (insert_all [''ax'', ''bx''] empty_dagger)) \<and>
   equivalent (heap (insert_all [''ax'', ''bx''] empty_dagger)) 2 4 \<and>
   heap_inv (insert_all [''ax'', ''bx''] empty_dagger) \<and>
   unminimized_path (minimize_step (insert_all [''ax'', ''bx''] empty_dagger))
     = [\<lparr>vertex_ptr = 3, edge_from_parent = CHR ''b''\<rparr>] \<and>
   map_find (CHR ''x'')
     (edges (heap (minimize_step (insert_all [''ax'', ''bx''] empty_dagger)) 3)) = Some 2 \<and>
   4 \<notin> set (minimized_vertices (minimize_step (insert_all [''ax'', ''bx''] empty_dagger))) \<and>
   unminimized_path (minimize_until 1 (insert_all [''ax'', ''bx''] empty_dagger))
     = [\<lparr>vertex_ptr = 3, edge_from_parent = CHR ''b''\<rparr>] \<and>
   unminimized_path (insert_all [''a''] empty_dagger)
     = [\<lparr>vertex_ptr = 1, edge_from_parent = CHR ''a''\<rparr>] \<and>
   minimized_vertices (insert_all [''a''] empty_dagger) = [] \<and>
   minimized_vertices (minimize_step (insert_all [''a''] empty_dagger)) = [1] \<and>
   heap (minimize_step (insert_all [''a''] empty_dagger)) = heap (insert_all [''a''] empty_dagger)"
proof -
  define s where "s = insert_all [''ax'', ''bx''] empty_dagger"
  define t where "t = insert_all [''a''] empty_dagger"
  define u where "u = \<lparr>vertex_ptr = 4, edge_from_parent = CHR ''x''\<rparr>"
  define u' where "u' = \<lparr>vertex_ptr = 3, edge_from_parent = CHR ''b''\<rparr>"
  define v where "v = \<lparr>vertex_ptr = 1, edge_from_parent = CHR ''a''\<rparr>"
  have p: "unminimized_path s = u # [u']"
    unfolding s_def u_def u'_def by code_simp
  have m: "2 \<in> set (minimized_vertices s)"
    unfolding s_def by code_simp
  have e: "equivalent (heap s) 2 (vertex_ptr u)"
    unfolding s_def u_def by code_simp
  have f: "registry_find (heap s) (minimized_vertices s) (vertex_ptr u) = Some 2"
    unfolding s_def u_def by code_simp
  have i: "heap_inv s"
    unfolding s_def by (intro heap_inv_insert_all heap_inv_empty)
  have q: "unminimized_path t = v # []"
    unfolding t_def v_def by code_simp
  have n: "minimized_vertices t = []"
    unfolding t_def by code_simp
  have par: "parent_of (root_vertex s) [u'] = 3"
    by (simp add: parent_of_def u'_def)
  note S = minimize_until_resolves_path [of 1 s]
  note T = minimize_until_resolves_path [of 0 t]
  have ex: "\<exists>c\<in>set (minimized_vertices s). equivalent (heap s) c (vertex_ptr u)"
    using m e by blast
  from S p ex obtain c where
    c: "registry_find (heap s) (minimized_vertices s) (vertex_ptr u) = Some c"
      "map_find (edge_from_parent u)
         (edges (heap (minimize_step s) (parent_of (root_vertex s) [u']))) = Some c"
      "heap_inv s \<longrightarrow> vertex_ptr u \<notin> set (minimized_vertices (minimize_step s))"
    by blast
  from c(1) f have c2: "c = 2" by simp
  have 1: "unminimized_path (minimize_step s) = [u']"
    using S p by blast
  have 2: "map_find (CHR ''x'') (edges (heap (minimize_step s) 3)) = Some 2"
    using c(2) by (simp add: par c2 u_def)
  have 3: "4 \<notin> set (minimized_vertices (minimize_step s))"
    using c(3) i by (simp add: u_def)
  have 4: "unminimized_path (minimize_until 1 s) = [u']"
    using S by (simp add: p)
  have "\<forall>c\<in>set (minimized_vertices t). \<not> equivalent (heap t) c (vertex_ptr v)"
    by (simp add: n)
  with T q have 5: "minimized_vertices (minimize_step t) = minimized_vertices t @ [vertex_ptr v]"
    and 6: "heap (minimize_step t) = heap t"
    by blast+
  from 5 have 7: "minimized_vertices (minimize_step t) = [1]"
    by (simp add: n v_def)
  from p m e i 1 2 3 4 q n 7 6 show ?thesis
    unfolding s_def t_def u_def u'_def v_def by simp
qed

text \<open>
  C5. Inserting a word a second time, right after its first insertion, creates no vertex.
  The second \<^verbatim>\<open>insert\<close> only marks as accepting the vertex on top of the path, or the
  root when the path is empty, which is exactly when the word is the empty string, whatever
  was inserted before; that vertex is accepting already and is accepting afterwards. The
  state of the automaton is the one after a single insertion, and so is the automaton that
  \<^verbatim>\<open>from_dictionary\<close> returns, whatever words follow: the same accepted language and the
  same vertices.
\<close>

theorem duplicate_insertion_idempotent:
  "insert_word w (insert_all (ws @ [w]) empty_dagger)
     = mark_top (insert_all (ws @ [w]) empty_dagger) \<and>
   mark_top (insert_all (ws @ [w]) empty_dagger) = insert_all (ws @ [w]) empty_dagger \<and>
   is_accepting (heap (insert_all (ws @ [w]) empty_dagger)
                   (path_top (insert_all (ws @ [w]) empty_dagger))) \<and>
   is_accepting (heap (insert_word w (insert_all (ws @ [w]) empty_dagger))
                   (path_top (insert_word w (insert_all (ws @ [w]) empty_dagger)))) \<and>
   path_top (insert_word w (insert_all (ws @ [w]) empty_dagger))
     = path_top (insert_all (ws @ [w]) empty_dagger) \<and>
   path_top (insert_all (ws @ [w]) empty_dagger)
     = (if w = [] then root_vertex (insert_all (ws @ [w]) empty_dagger)
        else vertex_ptr (hd (unminimized_path (insert_all (ws @ [w]) empty_dagger)))) \<and>
   (unminimized_path (insert_all (ws @ [w]) empty_dagger) = []) = (w = []) \<and>
   next_free (insert_word w (insert_all (ws @ [w]) empty_dagger))
     = next_free (insert_all (ws @ [w]) empty_dagger) \<and>
   insert_all (ws @ [w, w]) empty_dagger = insert_all (ws @ [w]) empty_dagger \<and>
   from_dictionary (ws @ [w, w] @ rest) = from_dictionary (ws @ [w] @ rest)"
proof -
  define s1 where "s1 = insert_all (ws @ [w]) empty_dagger"
  have s1: "s1 = insert_word w (insert_all ws empty_dagger)"
    by (simp add: s1_def insert_all_def)
  have labels: "path_labels s1 = prev_word s1"
    unfolding s1_def by (rule path_labels_run)
  have prev: "prev_word s1 = w"
    by (simp add: s1)
  have 1: "insert_word w s1 = mark_top s1"
    using labels prev by (rule insert_word_again)
  have acc: "is_accepting (heap s1 (path_top s1))"
    unfolding s1 by (rule accepting_top_insert)
  have 2: "mark_top s1 = s1"
    using acc by (rule mark_top_idem)
  have acc2: "is_accepting (heap (insert_word w s1) (path_top (insert_word w s1)))"
    by (rule accepting_top_insert)
  have 3: "(unminimized_path s1 = []) = (w = [])"
    using labels prev path_labels_length [of s1] by (metis length_0_conv)
  have top: "path_top s1 = (if w = [] then root_vertex s1
                            else vertex_ptr (hd (unminimized_path s1)))"
    using 3 by (cases "unminimized_path s1") (simp_all add: path_top_def)
  have same: "insert_word w s1 = s1"
    using 1 2 by simp
  have 4: "insert_all (ws @ [w, w]) empty_dagger = s1"
  proof -
    have "insert_all (ws @ [w, w]) empty_dagger = insert_word w s1"
      by (simp add: s1_def insert_all_def)
    with same show ?thesis by simp
  qed
  have "insert_all (ws @ [w, w] @ rest) empty_dagger = insert_all (ws @ [w] @ rest) empty_dagger"
    using 4 insert_all_append [of "ws @ [w, w]" rest] insert_all_append [of "ws @ [w]" rest]
    by (simp add: s1_def)
  then have 5: "from_dictionary (ws @ [w, w] @ rest) = from_dictionary (ws @ [w] @ rest)"
    by (simp add: from_dictionary_def)
  have 6: "path_top (insert_word w s1) = path_top s1"
    "next_free (insert_word w s1) = next_free s1"
    by (simp_all add: same)
  from 1 2 acc acc2 6 top 3 4 5 show ?thesis
    unfolding s1_def by (intro conjI)
qed

text \<open>
  The root is the vertex marked again also after words have been inserted: after \<open>''a''\<close>
  and the empty string, and after the empty string alone, the path is empty, and a second
  insertion of the empty string marks the root. So the root is not only marked when no word
  was ever inserted.
\<close>

theorem duplicate_marks_root_after_a_word:
  "fst (contains ''a'' (insert_all ([''a''] @ ['''']) empty_dagger)) \<and>
   unminimized_path (insert_all ([''a''] @ ['''']) empty_dagger) = [] \<and>
   path_top (insert_all ([''a''] @ ['''']) empty_dagger)
     = root_vertex (insert_all ([''a''] @ ['''']) empty_dagger) \<and>
   insert_word '''' (insert_all ([''a''] @ ['''']) empty_dagger)
     = mark_top (insert_all ([''a''] @ ['''']) empty_dagger) \<and>
   is_accepting (heap (insert_word '''' (insert_all ([''a''] @ ['''']) empty_dagger))
                   (root_vertex (insert_all ([''a''] @ ['''']) empty_dagger))) \<and>
   fst (contains '''' (insert_all ([] @ ['''']) empty_dagger)) \<and>
   unminimized_path (insert_all ([] @ ['''']) empty_dagger) = [] \<and>
   path_top (insert_all ([] @ ['''']) empty_dagger)
     = root_vertex (insert_all ([] @ ['''']) empty_dagger) \<and>
   insert_word '''' (insert_all ([] @ ['''']) empty_dagger)
     = mark_top (insert_all ([] @ ['''']) empty_dagger)"
proof -
  define s0 where "s0 = insert_all ([] @ ['''']) empty_dagger"
  have a0: "fst (contains '''' s0)"
    unfolding s0_def by code_simp
  have p0: "unminimized_path s0 = []"
    unfolding s0_def by code_simp
  then have t0: "path_top s0 = root_vertex s0"
    by (simp add: path_top_def)
  have "path_labels s0 = prev_word s0"
    unfolding s0_def by (rule path_labels_run)
  moreover have "prev_word s0 = ''''"
    by (simp add: s0_def insert_all_def)
  ultimately have m0: "insert_word '''' s0 = mark_top s0"
    by (rule insert_word_again)
  define s1 where "s1 = insert_all ([''a''] @ ['''']) empty_dagger"
  have a: "fst (contains ''a'' s1)"
    unfolding s1_def by code_simp
  have p: "unminimized_path s1 = []"
    unfolding s1_def by code_simp
  then have t: "path_top s1 = root_vertex s1"
    by (simp add: path_top_def)
  have labels: "path_labels s1 = prev_word s1"
    unfolding s1_def by (rule path_labels_run)
  have prev: "prev_word s1 = ''''"
    by (simp add: s1_def insert_all_def)
  have m: "insert_word '''' s1 = mark_top s1"
    using labels prev by (rule insert_word_again)
  have "is_accepting (heap (mark_top s1) (path_top s1))"
    by (simp add: mark_top_def)
  then have r: "is_accepting (heap (insert_word '''' s1) (root_vertex s1))"
    by (simp add: m t)
  from a p t m r a0 p0 t0 m0 show ?thesis
    unfolding s1_def s0_def by (intro conjI)
qed

text \<open>
  C6. For every finite input sequence of words, ordered or not, \<^verbatim>\<open>from_dictionary\<close>
  terminates: run with the loop of \<^verbatim>\<open>minimize_until\<close> as a partial function, the
  construction returns a result, the one that the total model computes.
\<close>

theorem from_dictionary_terminates:
  "from_dictionary_opt ws = Some (from_dictionary ws)"
  by (simp add: from_dictionary_opt_def from_dictionary_def finish_minimization_def
                insert_all_opt_eq minimize_until_opt_eq)

text \<open>
  C7. Built from the empty sequence, the automaton accepts no string at all: neither a
  non-empty string nor the empty string.
\<close>

theorem empty_dictionary_accepts_nothing:
  "fst (contains s (from_dictionary [])) = False"
  by (simp add: from_dictionary_Nil contains_def empty_dagger_def contains_loop_new)

text \<open>
  C8. In every state that the construction goes through, a vertex of the registry is still
  in the registry, with the same transitions and the same accepting flag, after each of the
  steps that change the automaton (an iteration of the loop of \<^verbatim>\<open>minimize_until\<close>, an
  iteration of the loop of \<^verbatim>\<open>add_suffix\<close>, the marking of the end of the word), and so it
  is in the automaton that \<^verbatim>\<open>from_dictionary\<close> returns. Whenever the registry is searched,
  the vertex looked for is the one on top of the path, and each of its transitions leads to
  a vertex of the registry, as do the transitions of the vertices of the registry; so a
  vertex that the search finds, which has the same flag and the same transitions to the same
  targets, accepts the same strings.
\<close>

theorem registry_permanent_and_probe_canonical:
  assumes "s = state_during ws k suffix"
  shows "(\<forall>r\<in>set (minimized_vertices s).
            (r \<in> set (minimized_vertices (minimize_step s)) \<and>
             heap (minimize_step s) r = heap s r) \<and>
            (r \<in> set (minimized_vertices (push_vertex c s)) \<and>
             heap (push_vertex c s) r = heap s r) \<and>
            (r \<in> set (minimized_vertices (mark_top s)) \<and>
             heap (mark_top s) r = heap s r)) \<and>
         (\<forall>r\<in>set (minimized_vertices (insert_all ws empty_dagger)).
            r \<in> set (minimized_vertices (from_dictionary (ws @ ws'))) \<and>
            heap (from_dictionary (ws @ ws')) r = heap (insert_all ws empty_dagger) r) \<and>
         targets (heap s (path_top s)) \<subseteq> set (minimized_vertices s) \<and>
         (\<forall>r\<in>set (minimized_vertices s). targets (heap s r) \<subseteq> set (minimized_vertices s)) \<and>
         (\<forall>v. registry_find (heap s) (minimized_vertices s) (path_top s) = Some v \<longrightarrow>
              v \<in> set (minimized_vertices s) \<and>
              (\<forall>x. contains_loop (heap s) v x = contains_loop (heap s) (path_top s) x))"
proof -
  have inv: "heap_inv s"
    unfolding assms by (rule heap_inv_during)
  have "\<forall>r\<in>set (minimized_vertices s). targets (heap s r) \<subseteq> set (minimized_vertices s)"
  proof
    fix r assume r: "r \<in> set (minimized_vertices s)"
    then have "r \<notin> set (root_vertex s # map vertex_ptr (unminimized_path s))"
      using heap_invD(1) [OF inv] by (auto simp: owned_def)
    then show "targets (heap s r) \<subseteq> set (minimized_vertices s)"
      by (rule heap_invD(4) [OF inv])
  qed
  moreover have "\<forall>v. registry_find (heap s) (minimized_vertices s) (path_top s) = Some v \<longrightarrow>
              v \<in> set (minimized_vertices s) \<and>
              (\<forall>x. contains_loop (heap s) v x = contains_loop (heap s) (path_top s) x)"
    using registry_find_Some contains_loop_same by blast
  ultimately show ?thesis
    using registry_step [OF inv] registry_push [OF inv] registry_mark [OF inv]
      registry_run [of _ ws ws'] heap_invD(6) [OF inv]
    by blast
qed

theorem registry_permanent_and_probe_canonical_witness:
  "(1::nat) \<in> set (minimized_vertices (state_during [''a'', ''b''] 0 [])) \<and>
   registry_find (heap (state_during [''a'', ''b''] 0 []))
     (minimized_vertices (state_during [''a'', ''b''] 0 []))
     (path_top (state_during [''a'', ''b''] 0 [])) = Some 1 \<and>
   1 \<in> set (minimized_vertices (minimize_step (state_during [''a'', ''b''] 0 []))) \<and>
   heap (minimize_step (state_during [''a'', ''b''] 0 [])) 1
     = heap (state_during [''a'', ''b''] 0 []) 1 \<and>
   1 \<in> set (minimized_vertices (from_dictionary ([''a'', ''b''] @ [''c'']))) \<and>
   contains_loop (heap (state_during [''a'', ''b''] 0 [])) 1 []
     = contains_loop (heap (state_during [''a'', ''b''] 0 []))
         (path_top (state_during [''a'', ''b''] 0 [])) []"
proof -
  have m: "(1::nat) \<in> set (minimized_vertices (state_during [''a'', ''b''] 0 []))"
    by code_simp
  have m': "(1::nat) \<in> set (minimized_vertices (insert_all [''a'', ''b''] empty_dagger))"
    by code_simp
  have f: "registry_find (heap (state_during [''a'', ''b''] 0 []))
     (minimized_vertices (state_during [''a'', ''b''] 0 []))
     (path_top (state_during [''a'', ''b''] 0 [])) = Some 1"
    by code_simp
  from m m' f
    registry_permanent_and_probe_canonical
      [of "state_during [''a'', ''b''] 0 []" "[''a'', ''b'']" 0 "[]" "CHR ''c''" "[''c'']"]
  show ?thesis
    by blast
qed

text \<open>
  C9. \<^verbatim>\<open>contains\<close> is read-only: it leaves the whole state of the automaton (root, registry,
  path, store of vertices) as it found it, and asked the same word again it gives the same
  answer.
\<close>

theorem contains_read_only:
  "snd (contains word s) = s \<and>
   fst (contains word (snd (contains word s))) = fst (contains word s)"
  by (simp add: contains_def)

text \<open>
  C10. After each call \<^verbatim>\<open>insert(w)\<close> of a run on a strictly ascending input, the
  unminimized path has exactly \<open>length w\<close> entries and the labels of their incoming edges,
  read from the bottom of the path to its top, spell \<open>w\<close>; so the depth
  \<^verbatim>\<open>common_prefix_len\<close> that \<^verbatim>\<open>insert\<close> passes to \<^verbatim>\<open>minimize_until\<close> never exceeds the
  size of the path at that moment. (The proof does not use the order of the input.)
\<close>

theorem path_spells_inserted_word:
  assumes "sorted_wrt (<) (ws @ [w])"
  shows "length (unminimized_path (insert_all (ws @ [w]) empty_dagger)) = length w \<and>
         map edge_from_parent (rev (unminimized_path (insert_all (ws @ [w]) empty_dagger))) = w \<and>
         mismatch (prev_word (insert_all ws empty_dagger)) w
           \<le> length (unminimized_path (insert_all ws empty_dagger))"
proof -
  have "path_labels (insert_all (ws @ [w]) empty_dagger) = w"
    using path_labels_run [of "ws @ [w]"] by (simp add: insert_all_def)
  moreover have "mismatch (prev_word (insert_all ws empty_dagger)) w
                   \<le> length (path_labels (insert_all ws empty_dagger))"
    unfolding path_labels_run by (rule mismatch_le)
  ultimately show ?thesis
    using path_labels_length [of "insert_all (ws @ [w]) empty_dagger"]
    by (auto simp: path_labels_def)
qed

theorem path_spells_inserted_word_witness:
  "sorted_wrt (<) ([''a'', ''ab''] @ [''b'']) \<and>
   length (unminimized_path (insert_all ([''a'', ''ab''] @ [''b'']) empty_dagger)) = length ''b'' \<and>
   map edge_from_parent (rev (unminimized_path (insert_all ([''a'', ''ab''] @ [''b'']) empty_dagger)))
     = ''b'' \<and>
   mismatch (prev_word (insert_all [''a'', ''ab''] empty_dagger)) ''b''
     \<le> length (unminimized_path (insert_all [''a'', ''ab''] empty_dagger))"
proof -
  have h: "sorted_wrt (<) ([''a'', ''ab''] @ [''b''])"
    by simp
  from h path_spells_inserted_word [OF h] show ?thesis
    by blast
qed

end
